theory Spec2Isabelle
  imports Complex_Main "HOL-Library.AList" "HOL-Library.Char_ord" "HOL-Library.List_Lexorder"
    "HOL-Library.Log_Nat" "HOL-Library.Signed_Division" "HOL-Library.Sublist"
begin

section \<open>Go values\<close>



definition wrap_int :: "int \<Rightarrow> int" where
  "wrap_int x = (x + 2 ^ 63) mod 2 ^ 64 - 2 ^ 63"

subsection \<open>Floating point\<close>

text \<open>
  A \<open>float64\<close> is an IEEE 754 binary64 number. The model takes the finite ones, each as
  the real number it denotes: a number with a significand of 53 bits and a binary exponent
  of at least \<open>-1022\<close> (below that the numbers are the multiples of \<open>2 powi (-1074)\<close>).
  The infinities, the NaNs and the sign of zero are not modelled, so a result is what the
  program computes as long as its magnitude stays among the finite numbers.

  An arithmetic operation of Go on \<open>float64\<close> gives the exact result rounded to the nearest
  \<open>float64\<close>, a tie going to the even significand. \<open>exponent x\<close> is the integer \<open>e\<close> with
  \<open>2 powi e \<le> \<bar>x\<bar> < 2 powi (e + 1)\<close>, and the \<open>float64\<close> numbers around \<open>x\<close> are
  \<open>2 powi (e - 52)\<close> apart. \<open>math.Round\<close> rounds to a whole number, half away from zero,
  and a conversion to \<open>int\<close> drops the fraction.
\<close>

type_synonym float64 = real

definition nearest_even :: "real \<Rightarrow> int" where
  "nearest_even q =
     (let f = \<lfloor>q\<rfloor>; d = q - of_int f
      in if d < 1 / 2 then f else if 1 / 2 < d then f + 1 else if even f then f else f + 1)"

definition exponent :: "real \<Rightarrow> int" where
  "exponent x =
     (if 1 \<le> \<bar>x\<bar> then bitlen \<lfloor>\<bar>x\<bar>\<rfloor> - 1 else - bitlen (\<lceil>1 / \<bar>x\<bar>\<rceil> - 1))"

definition float64_round :: "real \<Rightarrow> float64" where
  "float64_round x =
     (if x = 0 then 0
      else (let ulp = 2 powi (max (exponent x) (- 1022) - 52)
            in of_int (nearest_even (x / ulp)) * ulp))"

definition float64_add :: "float64 \<Rightarrow> float64 \<Rightarrow> float64" where
  "float64_add x y = float64_round (x + y)"

definition float64_mul :: "float64 \<Rightarrow> float64 \<Rightarrow> float64" where
  "float64_mul x y = float64_round (x * y)"

definition float64_div :: "float64 \<Rightarrow> float64 \<Rightarrow> float64" where
  "float64_div x y = float64_round (x / y)"

definition float64_of_int :: "int \<Rightarrow> float64" where
  "float64_of_int i = float64_round (of_int i)"

definition int_of_float64 :: "float64 \<Rightarrow> int" where
  "int_of_float64 x = (if 0 \<le> x then \<lfloor>x\<rfloor> else \<lceil>x\<rceil>)"

definition math_Round :: "float64 \<Rightarrow> float64" where
  "math_Round x = (if 0 \<le> x then of_int \<lfloor>x + 1 / 2\<rfloor> else - of_int \<lfloor>- x + 1 / 2\<rfloor>)"

text \<open>
  The unit roundoff of \<open>float64\<close>, which bounds the relative error of one rounding, and
  the least positive number with a full significand.
\<close>

definition unit_roundoff :: real where
  "unit_roundoff = 1 / 2 ^ 53"

definition least_normal :: real where
  "least_normal = 1 / 2 ^ 1022"

section \<open>Data points and worker runs\<close>

record writePoint =
  elapsedSecs :: int
  opsSec :: int
  passed :: bool
  size_p :: nat
  levels :: int
  writeAmp :: float64

record rawWriteRun =
  points :: "writePoint list"
  split :: int

text \<open>The zero value \<open>rawWriteRun{}\<close>.\<close>

definition rawWriteRun_zero :: rawWriteRun where
  "rawWriteRun_zero = \<lparr>points = [], split = 0\<rparr>"

text \<open>The loop of \<open>opsPerSecSplit\<close> that appends each point's ops/sec to \<open>passes\<close> or \<open>fails\<close>.\<close>

fun partitionPoints :: "writePoint list \<Rightarrow> int list \<Rightarrow> int list \<Rightarrow> int list \<times> int list" where
  "partitionPoints [] passes fails = (passes, fails)"
| "partitionPoints (p # ps) passes fails =
     (if passed p then partitionPoints ps (passes @ [opsSec p]) fails
      else partitionPoints ps passes (fails @ [opsSec p]))"

text \<open>
  \<open>opsPerSecSplit\<close> has a pointer receiver: it returns the split and leaves it in the
  \<open>split\<close> field of the run it was called on. The model returns the value and the updated
  run. \<open>findOptimalSplit\<close> lives in a file that is not part of the sources at hand, so the
  function is a parameter \<open>fos\<close> here.
\<close>

definition opsPerSecSplit :: "(int list \<Rightarrow> int list \<Rightarrow> int) \<Rightarrow> rawWriteRun \<Rightarrow> int \<times> rawWriteRun" where
  "opsPerSecSplit fos r =
     (if split r > 0 then (split r, r)
      else (case partitionPoints (points r) [] [] of
              (passes, fails) \<Rightarrow>
                (let s = fos passes fails in (s, r\<lparr>split := s\<rparr>))))"



subsection \<open>The optimal split, from its specification\<close>

text \<open>
  A sample is misclassified by a threshold \<open>t\<close> if it passed with a value below \<open>t\<close> or
  failed with a value of at least \<open>t\<close>.
\<close>

definition misclassified :: "int list \<Rightarrow> int list \<Rightarrow> int \<Rightarrow> nat" where
  "misclassified P F t = length (filter (\<lambda>p. p < t) P) + length (filter (\<lambda>f. t \<le> f) F)"

text \<open>
  Modelled from the spec: \<open>findOptimalSplit\<close> (split.go) is missing from the sources.
  The specification gives its contract: with no failing value the threshold is the least
  passing value, with no passing value it is the greatest failing value plus one, and
  otherwise it is the lowest candidate among the passing and failing values that
  misclassifies the fewest samples. The specification gives no value for a run without any
  sample (such a run never reaches the reducer); the model returns 0 there.
\<close>

definition findOptimalSplit :: "int list \<Rightarrow> int list \<Rightarrow> int" where
  "findOptimalSplit P F =
     (if F = [] then (if P = [] then 0 else Min (set P))
      else if P = [] then Max (set F) + 1
      else (let cands = P @ F;
                best = Min (set (map (misclassified P F) cands))
            in Min (set (filter (\<lambda>t. misclassified P F t = best) cands))))"

section \<open>Formatting\<close>

text \<open>
  \<open>fmt.Sprintf\<close> with the verbs the program uses: \<open>%d\<close> prints an integer in decimal with
  a minus sign when negative, \<open>%v\<close> prints a bool as \<open>true\<close> or \<open>false\<close>, and \<open>%.2f\<close>
  prints a number with two digits after the point, rounding the exact value to the
  nearest hundredth (a tie goes to the even digit).
\<close>

definition digit_char :: "nat \<Rightarrow> char" where
  "digit_char d = char_of (48 + d)"

fun digits :: "nat \<Rightarrow> string" where
  "digits n = (if n < 10 then [digit_char n] else digits (n div 10) @ [digit_char (n mod 10)])"

declare digits.simps [simp del]

definition fmt_d :: "int \<Rightarrow> string" where
  "fmt_d i = (if i < 0 then CHR ''-'' # digits (nat (- i)) else digits (nat i))"

definition fmt_v :: "bool \<Rightarrow> string" where
  "fmt_v b = (if b then ''true'' else ''false'')"

definition round_half_even :: "float64 \<Rightarrow> nat" where
  "round_half_even q =
     (let f = \<lfloor>q\<rfloor>; d = q - of_int f
      in nat (if d < 1 / 2 then f else if 1 / 2 < d then f + 1 else if even f then f else f + 1))"

definition fmt_f2 :: "float64 \<Rightarrow> string" where
  "fmt_f2 x =
     (let n = round_half_even (\<bar>x\<bar> * 100)
      in (if x < 0 then [CHR ''-''] else []) @ digits (n div 100) @ [CHR ''.'']
           @ [digit_char (n div 10 mod 10), digit_char (n mod 10)])"

definition newline :: char where
  "newline = CHR 0x0A"

definition PathSeparator :: char where
  "PathSeparator = CHR ''/''"

text \<open>\<open>strings.Split\<close> with a separator of one character, and \<open>strings.Join\<close>.\<close>

fun strings_Split :: "string \<Rightarrow> char \<Rightarrow> string list" where
  "strings_Split [] c = [[]]"
| "strings_Split (x # xs) c =
     (if x = c then [] # strings_Split xs c
      else (case strings_Split xs c of [] \<Rightarrow> [[x]] | w # ws \<Rightarrow> (x # w) # ws))"

fun strings_Join :: "string list \<Rightarrow> string \<Rightarrow> string" where
  "strings_Join [] sep = []"
| "strings_Join [a] sep = a"
| "strings_Join (a # b # bs) sep = a @ sep @ strings_Join (b # bs) sep"

text \<open>
  \<open>filepath.Dir\<close> and \<open>filepath.Join\<close>, for the clean relative paths the directory walk
  hands out: the directory of a path is the path without its last element.
\<close>

definition filepath_Dir :: "string \<Rightarrow> string" where
  "filepath_Dir p =
     (let parts = butlast (strings_Split p PathSeparator)
      in if parts = [] then [CHR ''.''] else strings_Join parts [PathSeparator])"

definition filepath_Join :: "string \<Rightarrow> string \<Rightarrow> string" where
  "filepath_Join a b = a @ [PathSeparator] @ b"

definition writePoint_formatCSV :: "writePoint \<Rightarrow> string" where
  "writePoint_formatCSV p =
     fmt_d (elapsedSecs p) @ [CHR '',''] @ fmt_d (opsSec p) @ [CHR '',''] @ fmt_v (passed p)
       @ [CHR '',''] @ fmt_d (int (size_p p)) @ [CHR '',''] @ fmt_d (levels p) @ [CHR '','']
       @ fmt_f2 (writeAmp p)"

text \<open>The loop of \<open>rawWriteRun.formatCSV\<close>: each point is written to the buffer with \<open>"%s\n"\<close>.\<close>

definition rawWriteRun_formatCSV :: "rawWriteRun \<Rightarrow> string" where
  "rawWriteRun_formatCSV r = fold (\<lambda>p b. b @ writePoint_formatCSV p @ [newline]) (points r) []"

section \<open>Runs and their summaries\<close>

datatype panic = IndexOutOfRange | DivideByZero | NilDereference

datatype error = ErrNotExist | Err string

datatype failure = Panic panic | Error error

record writeRunSummary =
  Name :: string
  Date :: string
  OpsSec :: int
  WriteAmp :: float64
  SummaryPath :: string

type_synonym writeWorkloadSummary = "writeRunSummary list"

record writeRun =
  name :: string
  date :: string
  dir :: string
  rawRuns :: "(string \<times> rawWriteRun) list"

definition summaryFilename :: string where
  "summaryFilename = ''summary.json''"

text \<open>\<open>r.points[len(r.points)-1].writeAmp\<close>: the index is out of range for a run without points.\<close>

definition rawWriteRun_writeAmp :: "rawWriteRun \<Rightarrow> panic + float64" where
  "rawWriteRun_writeAmp r =
     (if length (points r) = 0 then Inl IndexOutOfRange
      else Inr (writeAmp (points r ! (length (points r) - 1))))"

definition writeRun_summaryFilename :: "writeRun \<Rightarrow> string" where
  "writeRun_summaryFilename r =
     strings_Join (strings_Split (dir r) PathSeparator @ [summaryFilename]) [CHR ''-'']"

text \<open>
  The loop of \<open>summarize\<close> over the raw runs. The loop variable is a copy of the map's
  value, so the split that \<open>opsPerSecSplit\<close> memoizes stays in the copy: only the returned
  value is used.
\<close>

fun sumRuns :: "(int list \<Rightarrow> int list \<Rightarrow> int) \<Rightarrow> (string \<times> rawWriteRun) list \<Rightarrow> int \<Rightarrow> float64
    \<Rightarrow> panic + (int \<times> float64)" where
  "sumRuns fos [] sumOpsSec sumWriteAmp = Inr (sumOpsSec, sumWriteAmp)"
| "sumRuns fos ((k, rr) # rest) sumOpsSec sumWriteAmp =
     (let s = fst (opsPerSecSplit fos rr)
      in (case rawWriteRun_writeAmp rr of
            Inl e \<Rightarrow> Inl e
          | Inr wa \<Rightarrow> sumRuns fos rest (wrap_int (sumOpsSec + s)) (float64_add sumWriteAmp wa)))"

definition summarize :: "(int list \<Rightarrow> int list \<Rightarrow> int) \<Rightarrow> writeRun \<Rightarrow> panic + writeRunSummary" where
  "summarize fos r =
     (case sumRuns fos (rawRuns r) 0 0 of
        Inl e \<Rightarrow> Inl e
      | Inr (sumOpsSec, sumWriteAmp) \<Rightarrow>
          (let l = length (rawRuns r)
           in if l = 0 then Inl DivideByZero
              else Inr \<lparr>Name = name r, Date = date r,
                        OpsSec = sumOpsSec sdiv int l,
                        WriteAmp =
                          float64_div
                            (math_Round (float64_div (float64_mul 100 sumWriteAmp)
                                           (float64_of_int (int l))))
                            100,
                        SummaryPath = writeRun_summaryFilename r\<rparr>))"

record cookedWriteRun =
  OpsSec_c :: int
  Raw :: string

text \<open>
  \<open>formatSummaryJSON\<close> builds a map from file name to \<open>cookedWriteRun\<close> and hands it to
  \<open>prettyJSON\<close>, which is not part of the sources at hand. The model returns the map:
  a per-run file is represented by the map it encodes.
\<close>

definition formatSummaryJSON :: "(int list \<Rightarrow> int list \<Rightarrow> int) \<Rightarrow> writeRun
    \<Rightarrow> (string \<times> cookedWriteRun) list" where
  "formatSummaryJSON fos r =
     fold (\<lambda>(name, data) m.
             AList.update name \<lparr>OpsSec_c = fst (opsPerSecSplit fos data),
                                Raw = rawWriteRun_formatCSV data\<rparr> m)
       (rawRuns r) []"

section \<open>The loader\<close>

record writeWorkload =
  days :: "(string \<times> writeRun) list"

type_synonym writeWorkloads = "(string \<times> writeWorkload) list"

type_synonym nameDay = "string \<times> string"

type_synonym summaries = "(string \<times> writeWorkloadSummary) list"

text \<open>
  What the program prints on standard error, one value per \<open>Fprintf\<close>: an error on its own,
  a line with the error of its conversion (\<open>"%s: %v\n"\<close>, the error may be nil), the
  notice that a file is skipped (file, workload, day), the warning that a name differs
  (name of the line, name of the file, line), and the notice that a raw run is added
  (workload, day, number of points, file).
\<close>

datatype diag =
    ErrorLine error
  | LineError string "error option"
  | Skipping string string string
  | NameDiffers string string string
  | AddingRawRun string string nat string

text \<open>
  \<open>cooked\<close> is a \<open>map[nameDay]bool\<close> that only ever stores \<open>true\<close>; reading a missing key
  gives \<open>false\<close>. The field \<open>stderr\<close> is not a field of the Go struct: it collects what the
  program prints on standard error while the loader runs.
\<close>

record writeLoader =
  dataDir :: string
  summaryDir :: string
  workloads :: writeWorkloads
  cooked :: "nameDay \<Rightarrow> bool"
  cookedSummaries :: summaries
  stderr :: "diag list"

definition newWriteLoader :: "string \<Rightarrow> string \<Rightarrow> writeLoader" where
  "newWriteLoader dataDir' summaryDir' =
     \<lparr>dataDir = dataDir', summaryDir = summaryDir', workloads = [], cooked = (\<lambda>_. False),
      cookedSummaries = [], stderr = []\<rparr>"

subsection \<open>Files\<close>

text \<open>
  The bytes of the top-level summary file. \<open>prettyJSON\<close> is not part of the sources at hand
  and \<open>json.Unmarshal\<close> is a library function, so JSON text is not modelled byte by byte:
  a file that holds the JSON encoding of a summary map is represented by that map (the
  encoder writes the keys of a map in sorted order, so equal maps give equal bytes, and
  decoding gives the map back), and any other content by \<open>NotJSON\<close>.
\<close>

datatype fileBytes = JSON summaries | NotJSON string

fun json_Unmarshal :: "fileBytes \<Rightarrow> error + summaries" where
  "json_Unmarshal (JSON m) = Inr m"
| "json_Unmarshal (NotJSON b) = Inl (Err ''invalid character'')"

text \<open>
  Modelled from the spec: \<open>prettyJSON\<close> is missing from the sources. The specification
  has the artifacts be JSON objects, pretty-printed, with a trailing newline; the bytes
  written for a summary map are represented by the value \<open>JSON\<close> of that map. The per-run
  files, which the program never reads back, are kept as the maps they encode.
\<close>

definition prettyJSON :: "summaries \<Rightarrow> fileBytes" where
  "prettyJSON summary = JSON summary"

text \<open>
  A file of the data directory: its path, its path relative to the data directory, and
  what opening and reading it gives: an error of \<open>os.Open\<close>, an error of \<open>gzip.NewReader\<close>,
  or the lines the scanner returns from the reader chosen by the file's suffix.
\<close>

datatype fileData = OpenError error | GzipError error | Lines "string list"

record dataFile =
  path :: string
  pathRel :: string
  contents :: fileData

text \<open>
  The file system as the program sees it: what \<open>os.ReadFile\<close> gives for the top-level
  summary file, the per-run summary files by path (each represented by the map it
  encodes), the regular files under the data directory in the order of the walk, and the
  error, if any, that creating or writing the file at a path gives.
\<close>

record fileSystem =
  summaryFile :: "error + fileBytes"
  runFiles :: "(string \<times> (string \<times> cookedWriteRun) list) list"
  dataFiles :: "dataFile list"
  writeErr :: "string \<Rightarrow> error option"

subsection \<open>Loading the cooked summary\<close>

definition markCooked :: "string \<times> writeWorkloadSummary \<Rightarrow> writeLoader \<Rightarrow> writeLoader" where
  "markCooked = (\<lambda>(name', workloadSummary) l.
     fold (\<lambda>runSummary l'. l'\<lparr>cooked := (cooked l')((name', Date runSummary) := True)\<rparr>)
       workloadSummary l)"

definition loadCooked :: "writeLoader \<Rightarrow> fileSystem \<Rightarrow> failure option \<times> writeLoader" where
  "loadCooked l fs =
     (case summaryFile fs of
        Inl e \<Rightarrow> if e = ErrNotExist then (None, l) else (Some (Error e), l)
      | Inr b \<Rightarrow>
          (case json_Unmarshal b of
             Inl e \<Rightarrow> (Some (Error e), l)
           | Inr summaries' \<Rightarrow> (None, fold markCooked summaries' (l\<lparr>cookedSummaries := summaries'\<rparr>))))"

subsection \<open>Loading the raw data\<close>

text \<open>
  \<open>fmt.Sscanf\<close> and \<open>time.ParseDuration\<close> are library functions; they are parameters of the
  model. \<open>Sscanf\<close> with the format \<open>rawRunFmt\<close> gives the number of items it stored, its
  error, and the values it stored through its seven pointers. \<open>ParseDuration\<close> gives an
  error or the duration in nanoseconds.
\<close>

record scanResult =
  sc_n :: nat
  sc_err :: "error option"
  sc_nameInner :: string
  sc_opsSec :: int
  sc_passed :: bool
  sc_elapsed :: string
  sc_size :: nat
  sc_levels :: int
  sc_writeAmp :: float64

type_synonym sscanf = "string \<Rightarrow> scanResult"

type_synonym parseDuration = "string \<Rightarrow> error + int"

text \<open>
  \<open>int(secs.Seconds())\<close>. \<open>Duration.Seconds\<close> divides the nanoseconds into whole seconds
  and a rest, and returns \<open>float64(sec) + float64(nsec)/1e9\<close>; the conversion to \<open>int\<close>
  drops the fraction.
\<close>

definition seconds :: "int \<Rightarrow> int" where
  "seconds d =
     int_of_float64
       (float64_add (float64_of_int (d sdiv 1000000000))
          (float64_div (float64_of_int (d smod 1000000000)) 1000000000))"

text \<open>
  The point \<open>p\<close> of the loop body once \<open>Sscanf\<close> has stored its fields and the elapsed
  time has been converted.
\<close>

definition scannedPoint :: "scanResult \<Rightarrow> int \<Rightarrow> writePoint" where
  "scannedPoint s secs =
     \<lparr>elapsedSecs = seconds secs, opsSec = sc_opsSec s, passed = sc_passed s,
      size_p = sc_size s, levels = sc_levels s, writeAmp = sc_writeAmp s\<rparr>"

text \<open>
  One pass of the scanning loop of \<open>loadRaw\<close>. \<open>Next\<close> carries the name of the file, its raw run
  and standard error into the next pass (both \<open>continue\<close> and the end of the body);
  \<open>Return\<close> is the \<open>return nil\<close> that skips a file whose (workload, day) is cooked.
\<close>

datatype scan = Next string rawWriteRun "diag list" | Return "diag list"

definition scanLine :: "sscanf \<Rightarrow> parseDuration \<Rightarrow> (nameDay \<Rightarrow> bool) \<Rightarrow> string \<Rightarrow> string \<Rightarrow> string
    \<Rightarrow> string \<Rightarrow> rawWriteRun \<Rightarrow> diag list \<Rightarrow> scan" where
  "scanLine Sscanf ParseDuration cooked' day pathRel' line name' r err =
     (if \<not> prefix ''BenchmarkRaw'' line then Next name' r err
      else
        (let s = Sscanf line in
         if sc_err s \<noteq> None \<or> sc_n s \<noteq> 7 then Next name' r (err @ [LineError line (sc_err s)])
         else if name' = [] \<and> cooked' (sc_nameInner s, day)
           then Return (err @ [Skipping pathRel' (sc_nameInner s) day])
         else
           (let name2 = (if name' = [] then sc_nameInner s else name');
                err2 = (if name' \<noteq> [] \<and> name' \<noteq> sc_nameInner s
                        then err @ [NameDiffers (sc_nameInner s) name' line] else err)
            in (case ParseDuration (sc_elapsed s) of
                  Inl e \<Rightarrow> Next name2 r (err2 @ [LineError line (Some e)])
                | Inr secs \<Rightarrow>
                    Next name2 (r\<lparr>points := points r @ [scannedPoint s secs]\<rparr>) err2))))"

fun scanLines :: "sscanf \<Rightarrow> parseDuration \<Rightarrow> (nameDay \<Rightarrow> bool) \<Rightarrow> string \<Rightarrow> string \<Rightarrow> string list
    \<Rightarrow> string \<Rightarrow> rawWriteRun \<Rightarrow> diag list \<Rightarrow> scan" where
  "scanLines Sscanf ParseDuration cooked' day pathRel' [] name' r err = Next name' r err"
| "scanLines Sscanf ParseDuration cooked' day pathRel' (line # rest) name' r err =
     (case scanLine Sscanf ParseDuration cooked' day pathRel' line name' r err of
        Return err' \<Rightarrow> Return err'
      | Next name2 r2 err2 \<Rightarrow> scanLines Sscanf ParseDuration cooked' day pathRel' rest name2 r2 err2)"

text \<open>
  \<open>addRawRun\<close>. The maps hold pointers to the workload and to the run, which the function
  changes in place; the model writes the changed run and workload back under their keys.
\<close>

definition addRawRun :: "writeLoader \<Rightarrow> string \<Rightarrow> string \<Rightarrow> string \<Rightarrow> rawWriteRun \<Rightarrow> writeLoader" where
  "addRawRun l name' day path' raw =
     (if length (points raw) = 0 then l
      else
        (let err = stderr l @ [AddingRawRun name' day (length (points raw)) path'];
             w = (case map_of (workloads l) name' of None \<Rightarrow> \<lparr>days = []\<rparr> | Some w' \<Rightarrow> w');
             r = (case map_of (days w) day of
                    None \<Rightarrow> \<lparr>name = name', date = day, dir = filepath_Dir path', rawRuns = []\<rparr>
                  | Some r' \<Rightarrow> r');
             r2 = r\<lparr>rawRuns := AList.update path' raw (rawRuns r)\<rparr>;
             w2 = w\<lparr>days := AList.update day r2 (days w)\<rparr>
         in l\<lparr>workloads := AList.update name' w2 (workloads l), stderr := err\<rparr>))"

text \<open>The function \<open>walkFn\<close> of \<open>loadRaw\<close>, called on each file; it always returns nil.\<close>

definition walkFn :: "sscanf \<Rightarrow> parseDuration \<Rightarrow> dataFile \<Rightarrow> writeLoader \<Rightarrow> error option \<times> writeLoader" where
  "walkFn Sscanf ParseDuration f l =
     (let parts = strings_Split (pathRel f) PathSeparator in
      if length parts < 6 then (None, l)
      else if parts ! 2 \<noteq> ''write'' then (None, l)
      else
        (let day = parts ! 0 in
         case contents f of
           OpenError e \<Rightarrow> (None, l\<lparr>stderr := stderr l @ [ErrorLine e]\<rparr>)
         | GzipError e \<Rightarrow> (None, l\<lparr>stderr := stderr l @ [ErrorLine e]\<rparr>)
         | Lines ls \<Rightarrow>
             (case scanLines Sscanf ParseDuration (cooked l) day (pathRel f) ls [] rawWriteRun_zero
                     (stderr l) of
                Return err \<Rightarrow> (None, l\<lparr>stderr := err\<rparr>)
              | Next name' r err \<Rightarrow> (None, addRawRun (l\<lparr>stderr := err\<rparr>) name' day (pathRel f) r))))"

text \<open>
  Modelled from the spec: \<open>walkDir\<close> is missing from the sources. The specification has it
  hand every regular file under the root directory to the function it is given; it stops
  at the first error the function returns.
\<close>

fun walkDir :: "dataFile list \<Rightarrow> (dataFile \<Rightarrow> writeLoader \<Rightarrow> error option \<times> writeLoader) \<Rightarrow> writeLoader
    \<Rightarrow> error option \<times> writeLoader" where
  "walkDir [] fn l = (None, l)"
| "walkDir (f # fs) fn l =
     (case fn f l of (Some e, l') \<Rightarrow> (Some e, l') | (None, l') \<Rightarrow> walkDir fs fn l')"

definition loadRaw :: "sscanf \<Rightarrow> parseDuration \<Rightarrow> writeLoader \<Rightarrow> fileSystem \<Rightarrow> failure option \<times> writeLoader" where
  "loadRaw Sscanf ParseDuration l fs =
     (case walkDir (dataFiles fs) (walkFn Sscanf ParseDuration) l of
        (Some e, l') \<Rightarrow> (Some (Error e), l')
      | (None, l') \<Rightarrow> (None, l'))"

subsection \<open>Writing the summaries\<close>

text \<open>\<open>cookWriteSummary\<close>: the days are sorted, then each day's run is summarized in turn.\<close>

fun summarizeDays :: "(int list \<Rightarrow> int list \<Rightarrow> int) \<Rightarrow> writeWorkload \<Rightarrow> string list
    \<Rightarrow> writeWorkloadSummary \<Rightarrow> panic + writeWorkloadSummary" where
  "summarizeDays fos w [] summary = Inr summary"
| "summarizeDays fos w (day # rest) summary =
     (case map_of (days w) day of
        None \<Rightarrow> Inl NilDereference
      | Some r \<Rightarrow>
          (case summarize fos r of
             Inl p \<Rightarrow> Inl p
           | Inr s \<Rightarrow> summarizeDays fos w rest (summary @ [s])))"

definition cookWriteSummary :: "(int list \<Rightarrow> int list \<Rightarrow> int) \<Rightarrow> writeWorkload
    \<Rightarrow> panic + writeWorkloadSummary" where
  "cookWriteSummary fos w = summarizeDays fos w (sort (map fst (days w))) []"

text \<open>
  \<open>sort.Slice\<close> with the order of the dates. It is not a stable sort: Go leaves the order
  of entries with equal dates open. The model takes the stable order for them.
\<close>

definition sort_Slice :: "writeWorkloadSummary \<Rightarrow> writeWorkloadSummary" where
  "sort_Slice existing = sort_key Date existing"

fun cookAll :: "(int list \<Rightarrow> int list \<Rightarrow> int) \<Rightarrow> writeWorkloads \<Rightarrow> summaries \<Rightarrow> panic + summaries" where
  "cookAll fos [] summary = Inr summary"
| "cookAll fos ((name', w) # rest) summary =
     (case cookWriteSummary fos w of
        Inl p \<Rightarrow> Inl p
      | Inr s \<Rightarrow> cookAll fos rest (AList.update name' s summary))"

definition mixIn :: "string \<times> writeWorkloadSummary \<Rightarrow> summaries \<Rightarrow> summaries" where
  "mixIn = (\<lambda>(name', cooked') summary.
     (case map_of summary name' of
        None \<Rightarrow> AList.update name' cooked' summary
      | Some existing \<Rightarrow> AList.update name' (sort_Slice (existing @ cooked')) summary))"

text \<open>The summary map that \<open>cookSummary\<close> encodes and writes.\<close>

definition mergedSummary :: "(int list \<Rightarrow> int list \<Rightarrow> int) \<Rightarrow> writeLoader \<Rightarrow> panic + summaries" where
  "mergedSummary fos l =
     (case cookAll fos (workloads l) [] of
        Inl p \<Rightarrow> Inl p
      | Inr summary \<Rightarrow> Inr (fold mixIn (cookedSummaries l) summary))"

definition cookSummary :: "(int list \<Rightarrow> int list \<Rightarrow> int) \<Rightarrow> writeLoader \<Rightarrow> fileSystem
    \<Rightarrow> failure option \<times> fileSystem" where
  "cookSummary fos l fs =
     (case mergedSummary fos l of
        Inl p \<Rightarrow> (Some (Panic p), fs)
      | Inr summary \<Rightarrow>
          (let outputPath = filepath_Join (summaryDir l) summaryFilename in
           case writeErr fs outputPath of
             Some e \<Rightarrow> (Some (Error e), fs)
           | None \<Rightarrow> (None, fs\<lparr>summaryFile := Inr (prettyJSON summary)\<rparr>)))"

definition outputWriteRunSummary :: "(int list \<Rightarrow> int list \<Rightarrow> int) \<Rightarrow> writeRun \<Rightarrow> string \<Rightarrow> fileSystem
    \<Rightarrow> failure option \<times> fileSystem" where
  "outputWriteRunSummary fos r outputPath fs =
     (case writeErr fs outputPath of
        Some e \<Rightarrow> (Some (Error e), fs)
      | None \<Rightarrow> (None, fs\<lparr>runFiles := AList.update outputPath (formatSummaryJSON fos r) (runFiles fs)\<rparr>))"

fun writeDays :: "(int list \<Rightarrow> int list \<Rightarrow> int) \<Rightarrow> string \<Rightarrow> (string \<times> writeRun) list \<Rightarrow> fileSystem
    \<Rightarrow> failure option \<times> fileSystem" where
  "writeDays fos sd [] fs = (None, fs)"
| "writeDays fos sd ((day, r) # rest) fs =
     (case outputWriteRunSummary fos r (filepath_Join sd (writeRun_summaryFilename r)) fs of
        (Some e, fs') \<Rightarrow> (Some e, fs')
      | (None, fs') \<Rightarrow> writeDays fos sd rest fs')"

fun writeWorkloadRuns :: "(int list \<Rightarrow> int list \<Rightarrow> int) \<Rightarrow> string \<Rightarrow> writeWorkloads \<Rightarrow> fileSystem
    \<Rightarrow> failure option \<times> fileSystem" where
  "writeWorkloadRuns fos sd [] fs = (None, fs)"
| "writeWorkloadRuns fos sd ((name', w) # rest) fs =
     (case writeDays fos sd (days w) fs of
        (Some e, fs') \<Rightarrow> (Some e, fs')
      | (None, fs') \<Rightarrow> writeWorkloadRuns fos sd rest fs')"

definition cookWriteRunSummaries :: "(int list \<Rightarrow> int list \<Rightarrow> int) \<Rightarrow> writeLoader \<Rightarrow> fileSystem
    \<Rightarrow> failure option \<times> fileSystem" where
  "cookWriteRunSummaries fos l fs = writeWorkloadRuns fos (summaryDir l) (workloads l) fs"

text \<open>
  \<open>parseWrite\<close>: the result is the error it returns (or the panic that ends it), the file
  system it leaves and what it printed on standard error.
\<close>

definition parseWrite :: "(int list \<Rightarrow> int list \<Rightarrow> int) \<Rightarrow> sscanf \<Rightarrow> parseDuration \<Rightarrow> string \<Rightarrow> string
    \<Rightarrow> fileSystem \<Rightarrow> failure option \<times> fileSystem \<times> diag list" where
  "parseWrite fos Sscanf ParseDuration dataDir' summaryDir' fs =
     (let l = newWriteLoader dataDir' summaryDir' in
      case loadCooked l fs of
        (Some e, l1) \<Rightarrow> (Some e, fs, stderr l1)
      | (None, l1) \<Rightarrow>
          (case loadRaw Sscanf ParseDuration l1 fs of
             (Some e, l2) \<Rightarrow> (Some e, fs, stderr l2)
           | (None, l2) \<Rightarrow>
               (case cookSummary fos l2 fs of
                  (Some e, fs1) \<Rightarrow> (Some e, fs1, stderr l2)
                | (None, fs1) \<Rightarrow>
                    (case cookWriteRunSummaries fos l2 fs1 of
                       (e, fs2) \<Rightarrow> (e, fs2, stderr l2)))))"

subsection \<open>The name of a file, as the specification words it\<close>

text \<open>
  For comparison with \<open>scanLines\<close>: the name of the first line of a file that passes every
  conversion, the one of the duration included.
\<close>

fun firstFullyParsedName :: "sscanf \<Rightarrow> parseDuration \<Rightarrow> string list \<Rightarrow> string option" where
  "firstFullyParsedName Sscanf ParseDuration [] = None"
| "firstFullyParsedName Sscanf ParseDuration (line # rest) =
     (if prefix ''BenchmarkRaw'' line \<and> sc_err (Sscanf line) = None \<and> sc_n (Sscanf line) = 7
         \<and> \<not> isl (ParseDuration (sc_elapsed (Sscanf line)))
      then Some (sc_nameInner (Sscanf line))
      else firstFullyParsedName Sscanf ParseDuration rest)"

section \<open>Invariants of the aggregation tree\<close>

text \<open>
  A run is sound if it has a raw run and each of its raw runs has a point; a tree is sound
  if all its runs are.
\<close>

definition runOK :: "writeRun \<Rightarrow> bool" where
  "runOK r \<longleftrightarrow> rawRuns r \<noteq> [] \<and> (\<forall>(p, raw) \<in> set (rawRuns r). points raw \<noteq> [])"

definition treeOK :: "writeWorkloads \<Rightarrow> bool" where
  "treeOK ws \<longleftrightarrow> (\<forall>(n, w) \<in> set ws. \<forall>(d, r) \<in> set (days w). runOK r)"

text \<open>
  The pairs of workload and day of a cooked summary, and those of the tree. The tree as
  \<open>loadRaw\<close> keeps it for a cooked set \<open>ck\<close>: the keys of every map are distinct, every
  run carries the day it is filed under, no run is filed under a cooked pair, and every
  run is sound.
\<close>

definition cookedKeys :: "summaries \<Rightarrow> nameDay set" where
  "cookedKeys S = {(n, Date s) | n ss s. (n, ss) \<in> set S \<and> s \<in> set ss}"

definition treeKeys :: "writeWorkloads \<Rightarrow> nameDay set" where
  "treeKeys ws = {(n, d) | n d w r. map_of ws n = Some w \<and> map_of (days w) d = Some r}"

definition treeInv :: "(nameDay \<Rightarrow> bool) \<Rightarrow> writeWorkloads \<Rightarrow> bool" where
  "treeInv ck ws \<longleftrightarrow>
     distinct (map fst ws)
     \<and> (\<forall>(n, w) \<in> set ws. distinct (map fst (days w))
           \<and> (\<forall>(d, r) \<in> set (days w). date r = d \<and> \<not> ck (n, d) \<and> runOK r))"

text \<open>
  What \<open>walkFn\<close> hands to \<open>addRawRun\<close> for a file, if it adds anything: the name, the day
  and the raw run. \<open>ingest\<close> is \<open>walkFn\<close> over a list of files, and \<open>isAdding\<close> tells the
  notice of an added raw run from the other lines of standard error.
\<close>

definition fileScan :: "sscanf \<Rightarrow> parseDuration \<Rightarrow> (nameDay \<Rightarrow> bool) \<Rightarrow> dataFile
    \<Rightarrow> (string \<times> string \<times> rawWriteRun) option" where
  "fileScan Sscanf PD ck f =
     (let parts = strings_Split (pathRel f) PathSeparator in
      if length parts < 6 \<or> parts ! 2 \<noteq> ''write'' then None
      else (case contents f of
              Lines ls \<Rightarrow>
                (case scanLines Sscanf PD ck (parts ! 0) (pathRel f) ls [] rawWriteRun_zero [] of
                   Next nm r e \<Rightarrow> if points r = [] then None else Some (nm, parts ! 0, r)
                 | Return e \<Rightarrow> None)
            | _ \<Rightarrow> None))"

definition ingest :: "sscanf \<Rightarrow> parseDuration \<Rightarrow> dataFile list \<Rightarrow> writeLoader \<Rightarrow> writeLoader" where
  "ingest Sscanf PD files l = fold (\<lambda>f l. snd (walkFn Sscanf PD f l)) files l"

definition isAdding :: "diag \<Rightarrow> bool" where
  "isAdding d = (case d of AddingRawRun _ _ _ _ \<Rightarrow> True | _ \<Rightarrow> False)"

text \<open>What \<open>walkFn\<close> prints for a file before it adds anything.\<close>

definition fileLog :: "sscanf \<Rightarrow> parseDuration \<Rightarrow> (nameDay \<Rightarrow> bool) \<Rightarrow> dataFile \<Rightarrow> diag list" where
  "fileLog Sscanf PD ck f =
     (let parts = strings_Split (pathRel f) PathSeparator in
      if length parts < 6 \<or> parts ! 2 \<noteq> ''write'' then []
      else (case contents f of
              OpenError e \<Rightarrow> [ErrorLine e]
            | GzipError e \<Rightarrow> [ErrorLine e]
            | Lines ls \<Rightarrow>
                (case scanLines Sscanf PD ck (parts ! 0) (pathRel f) ls [] rawWriteRun_zero [] of
                   Next nm r e \<Rightarrow> e
                 | Return e \<Rightarrow> e)))"


section \<open>Example data\<close>

text \<open>
  A run of two workers on one day: the workers' samples give the throughputs 1000 and
  1200 and the final write amplifications 2.0 and 3.0.
\<close>

definition example_run :: writeRun where
  "example_run =
     \<lparr>name = ''values=1024'', date = ''20230102'', dir = ''20230102/pebble/write/values=1024/1'',
      rawRuns =
        [(''20230102/pebble/write/values=1024/1/w1.log'',
          \<lparr>points = [\<lparr>elapsedSecs = 5, opsSec = 1000, passed = True, size_p = 1024,
                       levels = 3, writeAmp = 2\<rparr>], split = 0\<rparr>),
         (''20230102/pebble/write/values=1024/1/w2.log'',
          \<lparr>points = [\<lparr>elapsedSecs = 5, opsSec = 1200, passed = True, size_p = 1024,
                       levels = 3, writeAmp = 3\<rparr>], split = 0\<rparr>)]\<rparr>"

text \<open>
  The same run with the final write amplifications 1.00 and 1.01: what \<open>Sscanf\<close> stores
  for \<open>1.01\<close> is the \<open>float64\<close> nearest to it.
\<close>

definition example_run_amp :: writeRun where
  "example_run_amp =
     \<lparr>name = ''values=1024'', date = ''20230102'', dir = ''20230102/pebble/write/values=1024/1'',
      rawRuns =
        [(''20230102/pebble/write/values=1024/1/w1.log'',
          \<lparr>points = [\<lparr>elapsedSecs = 5, opsSec = 1000, passed = True, size_p = 1024,
                       levels = 3, writeAmp = 1\<rparr>], split = 0\<rparr>),
         (''20230102/pebble/write/values=1024/1/w2.log'',
          \<lparr>points = [\<lparr>elapsedSecs = 5, opsSec = 1200, passed = True, size_p = 1024,
                       levels = 3, writeAmp = float64_round (101 / 100)\<rparr>], split = 0\<rparr>)]\<rparr>"

text \<open>
  Lines of a benchmark log, and what \<open>Sscanf\<close> and \<open>ParseDuration\<close> make of them: two
  well-formed records of the workload \<open>values=1024\<close>, a record whose ops/sec field is not a
  number, a record of the workload \<open>values=64\<close> whose duration does not parse, a well-formed
  record of \<open>values=64\<close>, and a line that is no record.
\<close>

definition line_ok1 :: string where
  "line_ok1 = ''BenchmarkRawvalues=1024 1000 ops/sec true pass 5s elapsed 1024 bytes 3 levels 2.000000 writeAmp''"

definition line_ok2 :: string where
  "line_ok2 = ''BenchmarkRawvalues=1024 1200 ops/sec true pass 5s elapsed 1024 bytes 3 levels 3.000000 writeAmp''"

definition line_bad :: string where
  "line_bad = ''BenchmarkRawvalues=1024 fast ops/sec true pass 5s elapsed 1024 bytes 3 levels 2.000000 writeAmp''"

definition line_baddur :: string where
  "line_baddur = ''BenchmarkRawvalues=64 900 ops/sec true pass soon elapsed 64 bytes 2 levels 1.500000 writeAmp''"

definition line_ok64 :: string where
  "line_ok64 = ''BenchmarkRawvalues=64 900 ops/sec true pass 5s elapsed 64 bytes 2 levels 1.500000 writeAmp''"

definition line_noise :: string where
  "line_noise = ''I230102 12:00:00 starting the benchmark''"

definition example_Sscanf :: sscanf where
  "example_Sscanf line =
     (if line = line_ok1 then
        \<lparr>sc_n = 7, sc_err = None, sc_nameInner = ''values=1024'', sc_opsSec = 1000, sc_passed = True,
         sc_elapsed = ''5s'', sc_size = 1024, sc_levels = 3, sc_writeAmp = 2\<rparr>
      else if line = line_ok2 then
        \<lparr>sc_n = 7, sc_err = None, sc_nameInner = ''values=1024'', sc_opsSec = 1200, sc_passed = True,
         sc_elapsed = ''5s'', sc_size = 1024, sc_levels = 3, sc_writeAmp = 3\<rparr>
      else if line = line_baddur then
        \<lparr>sc_n = 7, sc_err = None, sc_nameInner = ''values=64'', sc_opsSec = 900, sc_passed = True,
         sc_elapsed = ''soon'', sc_size = 64, sc_levels = 2, sc_writeAmp = 3 / 2\<rparr>
      else if line = line_ok64 then
        \<lparr>sc_n = 7, sc_err = None, sc_nameInner = ''values=64'', sc_opsSec = 900, sc_passed = True,
         sc_elapsed = ''5s'', sc_size = 64, sc_levels = 2, sc_writeAmp = 3 / 2\<rparr>
      else
        \<lparr>sc_n = 1, sc_err = Some (Err ''expected integer''), sc_nameInner = ''values=1024'',
         sc_opsSec = 0, sc_passed = False, sc_elapsed = [], sc_size = 0, sc_levels = 0,
         sc_writeAmp = 0\<rparr>)"

definition example_ParseDuration :: parseDuration where
  "example_ParseDuration s =
     (if s = ''5s'' then Inr 5000000000 else Inl (Err ''time: invalid duration''))"

text \<open>
  A data directory with the logs of two workers for the workload \<open>values=1024\<close> on
  2023-01-02, and no summary yet; and the same directory beside a summary file that is
  not JSON.
\<close>

definition example_files :: "dataFile list" where
  "example_files =
     [\<lparr>path = ''data/20230102/pebble/write/values=1024/1/w1.log'',
       pathRel = ''20230102/pebble/write/values=1024/1/w1.log'',
       contents = Lines [line_noise, line_ok1, line_bad]\<rparr>,
      \<lparr>path = ''data/20230102/pebble/write/values=1024/1/w2.log'',
       pathRel = ''20230102/pebble/write/values=1024/1/w2.log'',
       contents = Lines [line_ok2]\<rparr>]"

definition example_fs :: fileSystem where
  "example_fs =
     \<lparr>summaryFile = Inl ErrNotExist, runFiles = [], dataFiles = example_files,
      writeErr = (\<lambda>_. None)\<rparr>"

definition example_fs_malformed :: fileSystem where
  "example_fs_malformed = example_fs\<lparr>summaryFile := Inr (NotJSON ''{values=1024: ['')\<rparr>"

text \<open>
  A log whose first record is the one of \<open>values=64\<close> with a duration that does not parse,
  followed by a well-formed record; and a directory with that log beside a summary in
  which \<open>values=64\<close> is cooked for the day.
\<close>

definition example_file_baddur :: dataFile where
  "example_file_baddur =
     \<lparr>path = ''data/20230102/pebble/write/values=1024/1/w3.log'',
      pathRel = ''20230102/pebble/write/values=1024/1/w3.log'',
      contents = Lines [line_baddur, line_ok1]\<rparr>"

definition example_fs_cooked64 :: fileSystem where
  "example_fs_cooked64 =
     \<lparr>summaryFile =
        Inr (JSON [(''values=64'',
               [\<lparr>Name = ''values=64'', Date = ''20230102'', OpsSec = 900, WriteAmp = 3 / 2,
                 SummaryPath = ''20230102-pebble-write-values=64-1-summary.json''\<rparr>])]),
      runFiles = [], dataFiles = [example_file_baddur], writeErr = (\<lambda>_. None)\<rparr>"

text \<open>
  A data directory in which the logs of two workers lie in one directory and name
  different workloads, \<open>values=1024\<close> and \<open>values=64\<close>.
\<close>

definition example_fs_shared :: fileSystem where
  "example_fs_shared =
     \<lparr>summaryFile = Inl ErrNotExist, runFiles = [],
      dataFiles =
        [\<lparr>path = ''data/20230102/pebble/write/values=1024/1/w1.log'',
          pathRel = ''20230102/pebble/write/values=1024/1/w1.log'',
          contents = Lines [line_ok1]\<rparr>,
         \<lparr>path = ''data/20230102/pebble/write/values=1024/1/w4.log'',
          pathRel = ''20230102/pebble/write/values=1024/1/w4.log'',
          contents = Lines [line_ok64]\<rparr>],
      writeErr = (\<lambda>_. None)\<rparr>"

text \<open>
  A cooked summary entry of the workload \<open>values=1024\<close> for a given day; the example
  directory beside a summary of 2023-01-01 and 2023-01-03; a summary file whose sequence
  is neither sorted nor free of repeated dates, with no data; and a loader in which
  2023-01-02 is both a new day of the tree and a day of the cooked summary.
\<close>

definition example_cooked :: "string \<Rightarrow> writeRunSummary" where
  "example_cooked d =
     \<lparr>Name = ''values=1024'', Date = d, OpsSec = 900, WriteAmp = 2,
      SummaryPath = d @ ''-pebble-write-values=1024-1-summary.json''\<rparr>"

definition example_fs_cooked :: fileSystem where
  "example_fs_cooked =
     example_fs\<lparr>summaryFile :=
       Inr (JSON [(''values=1024'', [example_cooked ''20230101'', example_cooked ''20230103''])])\<rparr>"

definition example_fs_unsorted :: fileSystem where
  "example_fs_unsorted =
     \<lparr>summaryFile =
        Inr (JSON [(''values=1024'',
               [example_cooked ''20230103'', example_cooked ''20230101'', example_cooked ''20230101''])]),
      runFiles = [], dataFiles = [], writeErr = (\<lambda>_. None)\<rparr>"

definition example_loader_dup :: writeLoader where
  "example_loader_dup =
     (newWriteLoader ''data'' ''write-throughput'')
       \<lparr>workloads := [(''values=1024'', \<lparr>days = [(''20230102'', example_run)]\<rparr>)],
        cookedSummaries := [(''values=1024'', [example_cooked ''20230102''])]\<rparr>"

section \<open>The reducer\<close>








section \<open>Floating point arithmetic\<close>

subsection \<open>The exponent\<close>

lemma exponent_bounds:
  assumes "x \<noteq> 0"
  shows "2 powi exponent x \<le> \<bar>x\<bar>" and "\<bar>x\<bar> < 2 powi (exponent x + 1)"
proof -
  have both: "2 powi exponent x \<le> \<bar>x\<bar> \<and> \<bar>x\<bar> < 2 powi (exponent x + 1)"
  proof (cases "1 \<le> \<bar>x\<bar>")
    case True
    define m where "m = \<lfloor>\<bar>x\<bar>\<rfloor>"
    have m: "0 < m" using True by (simp add: m_def)
    have b1: "1 \<le> bitlen m" using m by (simp add: bitlen_alt_def)
    have e: "exponent x = bitlen m - 1" using True by (simp add: exponent_def m_def)
    from bitlen_bounds[OF m] have lo: "2 ^ nat (bitlen m - 1) \<le> m" and hi: "m < 2 ^ nat (bitlen m)"
      by auto
    have "(2::real) powi (bitlen m - 1) = of_int (2 ^ nat (bitlen m - 1))"
      using b1 by (simp add: power_int_def)
    also have "\<dots> \<le> of_int m" using lo by (simp only: of_int_le_iff)
    also have "\<dots> \<le> \<bar>x\<bar>" by (simp add: m_def)
    finally have A: "2 powi exponent x \<le> \<bar>x\<bar>" by (simp add: e)
    have "m + 1 \<le> 2 ^ nat (bitlen m)" using hi by simp
    then have "of_int (m + 1) \<le> (of_int (2 ^ nat (bitlen m)) :: real)" by (simp only: of_int_le_iff)
    moreover have "\<bar>x\<bar> < of_int (m + 1)" unfolding m_def by linarith
    moreover have "(2::real) powi (bitlen m) = of_int (2 ^ nat (bitlen m))"
      using b1 by (simp add: power_int_def)
    ultimately have "\<bar>x\<bar> < 2 powi (exponent x + 1)" by (simp add: e)
    with A show ?thesis ..
  next
    case False
    define y where "y = 1 / \<bar>x\<bar>"
    have y1: "1 < y" using False assms by (simp add: y_def)
    define m where "m = \<lceil>y\<rceil> - 1"
    have m: "0 < m" using y1 unfolding m_def by linarith
    have b1: "1 \<le> bitlen m" using m by (simp add: bitlen_alt_def)
    have e: "exponent x = - bitlen m" using False by (simp add: exponent_def m_def y_def)
    from bitlen_bounds[OF m] have lo: "2 ^ nat (bitlen m - 1) \<le> m" and hi: "m < 2 ^ nat (bitlen m)"
      by auto
    have p: "(2::real) powi (bitlen m) = of_int (2 ^ nat (bitlen m))"
      using b1 by (simp add: power_int_def)
    have p': "(2::real) powi (bitlen m - 1) = of_int (2 ^ nat (bitlen m - 1))"
      using b1 by (simp add: power_int_def)
    have "m + 1 \<le> 2 ^ nat (bitlen m)" using hi by simp
    then have "of_int (m + 1) \<le> (of_int (2 ^ nat (bitlen m)) :: real)" by (simp only: of_int_le_iff)
    moreover have "y \<le> of_int (m + 1)" unfolding m_def by simp
    ultimately have yle: "y \<le> 2 powi (bitlen m)" using p by simp
    have "(of_int (2 ^ nat (bitlen m - 1)) :: real) \<le> of_int m" using lo by (simp only: of_int_le_iff)
    moreover have "of_int m < y" unfolding m_def by linarith
    ultimately have ygt: "2 powi (bitlen m - 1) < y" unfolding p' by linarith
    have xpos: "0 < \<bar>x\<bar>" using assms by simp
    have x: "\<bar>x\<bar> = 1 / y" using assms by (simp add: y_def)
    have ypos: "0 < y" using y1 by simp
    have A: "2 powi (- bitlen m) \<le> \<bar>x\<bar>"
    proof -
      have "1 / (2 powi (bitlen m)) \<le> 1 / y" using yle ypos by (simp add: frac_le)
      then show ?thesis by (simp add: x power_int_minus_divide)
    qed
    have B: "\<bar>x\<bar> < 2 powi (- bitlen m + 1)"
    proof -
      have "0 < (2::real) powi (bitlen m - 1)" by simp
      then have "1 / y < 1 / (2 powi (bitlen m - 1))" using ygt by (simp add: frac_less2)
      moreover have "(2::real) powi (- bitlen m + 1) = 1 / (2 powi (bitlen m - 1))"
        using power_int_minus_divide[of "2::real" "bitlen m - 1"] by simp
      ultimately show ?thesis by (simp add: x)
    qed
    show ?thesis using A B by (simp add: e)
  qed
  show "2 powi exponent x \<le> \<bar>x\<bar>" using both ..
  show "\<bar>x\<bar> < 2 powi (exponent x + 1)" using both ..
qed

lemma exponent_unique:
  assumes "2 powi e \<le> \<bar>x\<bar>" and "\<bar>x\<bar> < 2 powi (e + 1)"
  shows "exponent x = e"
proof -
  have pos: "0 < (2::real) powi e" by simp
  have nz: "x \<noteq> 0"
  proof
    assume "x = 0"
    then have "2 powi e \<le> (0::real)" using assms(1) by simp
    with pos show False by linarith
  qed
  note b = exponent_bounds[OF nz]
  have 1: "e < exponent x + 1"
  proof (rule ccontr)
    assume "\<not> e < exponent x + 1"
    then have "(2::real) powi (exponent x + 1) \<le> 2 powi e"
      by (intro power_int_increasing) auto
    then show False using assms(1) b(2) by linarith
  qed
  have 2: "exponent x < e + 1"
  proof (rule ccontr)
    assume "\<not> exponent x < e + 1"
    then have "(2::real) powi (e + 1) \<le> 2 powi exponent x"
      by (intro power_int_increasing) auto
    then show False using assms(2) b(1) by linarith
  qed
  show ?thesis using 1 2 by simp
qed

subsection \<open>The error of a rounding\<close>

lemma nearest_even_close: "\<bar>of_int (nearest_even q) - q\<bar> \<le> 1 / 2"
proof -
  define f where "f = \<lfloor>q\<rfloor>"
  have "of_int f \<le> q" "q < of_int f + 1" unfolding f_def by linarith+
  then show ?thesis unfolding nearest_even_def Let_def f_def[symmetric] by auto
qed


lemma float64_round_ulp:
  assumes "x \<noteq> 0"
  shows "\<bar>float64_round x - x\<bar> \<le> 2 powi (max (exponent x) (- 1022) - 53)"
proof -
  define e where "e = max (exponent x) (- 1022)"
  define ulp :: real where "ulp = 2 powi (e - 52)"
  define n where "n = nearest_even (x / ulp)"
  have ulp: "0 < ulp" by (simp add: ulp_def)
  have fl: "float64_round x = of_int n * ulp"
    using assms by (simp add: float64_round_def Let_def n_def ulp_def e_def)
  have "\<bar>of_int n - x / ulp\<bar> \<le> 1 / 2" unfolding n_def by (rule nearest_even_close)
  then have "\<bar>of_int n - x / ulp\<bar> * ulp \<le> 1 / 2 * ulp" using ulp by (intro mult_right_mono) auto
  moreover have "\<bar>of_int n - x / ulp\<bar> * ulp = \<bar>of_int n * ulp - x\<bar>"
  proof -
    have "\<bar>of_int n - x / ulp\<bar> * ulp = \<bar>(of_int n - x / ulp) * ulp\<bar>"
      using ulp by (simp add: abs_mult)
    also have "(of_int n - x / ulp) * ulp = of_int n * ulp - x"
      using ulp by (simp add: field_simps)
    finally show ?thesis .
  qed
  moreover have "1 / 2 * ulp = 2 powi (e - 53)"
  proof -
    have "(2::real) powi (e - 52) = 2 powi ((e - 53) + 1)" by simp
    also have "\<dots> = 2 powi (e - 53) * 2" by (subst power_int_add) auto
    finally show ?thesis by (simp add: ulp_def)
  qed
  ultimately show ?thesis by (simp add: fl e_def)
qed


lemma float64_round_error_normal:
  assumes "least_normal \<le> \<bar>x\<bar>"
  shows "\<bar>float64_round x - x\<bar> \<le> unit_roundoff * \<bar>x\<bar>"
proof -
  have ln: "least_normal = 2 powi (- 1022)" by (simp add: least_normal_def power_int_minus_divide)
  have nz: "x \<noteq> 0" using assms by (auto simp: least_normal_def)
  have e: "- 1022 \<le> exponent x"
  proof (rule ccontr)
    assume "\<not> - 1022 \<le> exponent x"
    then have "(2::real) powi (exponent x + 1) \<le> 2 powi (- 1022)"
      by (intro power_int_increasing) auto
    then show False using exponent_bounds(2)[OF nz] assms ln by linarith
  qed
  have "(2::real) powi (exponent x - 53) = 2 powi exponent x * 2 powi (- 53)"
    by (subst power_int_add[symmetric]) auto
  also have "\<dots> = 2 powi exponent x * unit_roundoff"
    by (simp add: unit_roundoff_def power_int_minus_divide)
  also have "\<dots> \<le> \<bar>x\<bar> * unit_roundoff"
    using exponent_bounds(1)[OF nz] by (intro mult_right_mono) (auto simp: unit_roundoff_def)
  finally show ?thesis using float64_round_ulp[OF nz] e by (simp add: max_def mult.commute)
qed



subsection \<open>Sums and means\<close>






section \<open>The summary of a run\<close>


lemma wrap_int_add_left: "wrap_int (wrap_int x + y) = wrap_int (x + y)"
  unfolding wrap_int_def by (simp add: mod_simps ac_simps)

lemma rawWriteRun_writeAmp_ok:
  "points rr \<noteq> [] \<Longrightarrow> rawWriteRun_writeAmp rr = Inr (writeAmp (last (points rr)))"
  by (simp add: rawWriteRun_writeAmp_def last_conv_nth)

lemma sumRuns_ok:
  assumes "\<forall>(k, rr) \<in> set rs. points rr \<noteq> []"
  shows "sumRuns fos rs a b =
           Inr (if rs = [] then a else wrap_int (a + (\<Sum>(k, rr) \<leftarrow> rs. fst (opsPerSecSplit fos rr))),
                fold (\<lambda>w s. float64_add s w) (map (\<lambda>(k, rr). writeAmp (last (points rr))) rs) b)"
  using assms
proof (induction rs arbitrary: a b)
  case Nil
  then show ?case by simp
next
  case (Cons x rs)
  obtain k rr where x: "x = (k, rr)" by (cases x)
  have ne: "points rr \<noteq> []" using Cons.prems x by simp
  have rest: "\<forall>(k, rr) \<in> set rs. points rr \<noteq> []" using Cons.prems by simp
  show ?case
    using Cons.IH[OF rest] ne
    by (simp add: x rawWriteRun_writeAmp_ok Let_def wrap_int_add_left add.assoc)
qed


lemma summarize_value:
  assumes "rawRuns r \<noteq> []" and "\<forall>(k, rr) \<in> set (rawRuns r). points rr \<noteq> []"
  shows "summarize fos r =
     Inr \<lparr>Name = name r, Date = date r,
          OpsSec = wrap_int (\<Sum>(k, rr) \<leftarrow> rawRuns r. fst (opsPerSecSplit fos rr))
                     sdiv int (length (rawRuns r)),
          WriteAmp =
            float64_div
              (math_Round
                 (float64_div
                    (float64_mul 100
                       (fold (\<lambda>w s. float64_add s w)
                          (map (\<lambda>(k, rr). writeAmp (last (points rr))) (rawRuns r)) 0))
                    (float64_of_int (int (length (rawRuns r))))))
              100,
          SummaryPath = writeRun_summaryFilename r\<rparr>"
  using sumRuns_ok[OF assms(2), of fos 0 0] assms(1)
  by (simp add: summarize_def Let_def)






text \<open>
  As the claim is worded, \<open>WriteAmp\<close> is the mean rounded to hundredths. Two workers whose
  logs end with the write amplifications 1.00 and 1.01 have the \<open>float64\<close> values 1 and
  the \<open>float64\<close> nearest to 1.01, whose mean is a little above 1.005; the program gives
  1.00, more than half a hundredth from the mean: the sum of the two is rounded down to
  the \<open>float64\<close> below it, and a hundred times that, halved, is below 100.5.
\<close>

theorem C4_rounded_mean_counterexample:
  "summarize findOptimalSplit example_run_amp =
     Inr \<lparr>Name = ''values=1024'', Date = ''20230102'', OpsSec = 1100, WriteAmp = 1,
          SummaryPath = ''20230102-pebble-write-values=1024-1-summary.json''\<rparr>
   \<and> 1 / 200 < \<bar>1 - (1 + float64_round (101 / 100)) / 2\<bar>"
proof -
  have v: "float64_div (math_Round (float64_div (float64_mul 100
             (float64_add (float64_add 0 1) (float64_round (101 / 100)))) (float64_of_int 2))) 100 = 1"
    by code_simp
  have m: "1 / 200 < \<bar>1 - (1 + float64_round (101 / 100)) / 2\<bar>"
    by code_simp
  have p: "writeRun_summaryFilename example_run_amp = ''20230102-pebble-write-values=1024-1-summary.json''"
    by (simp add: writeRun_summaryFilename_def example_run_amp_def PathSeparator_def
        summaryFilename_def)
  have "summarize findOptimalSplit example_run_amp =
     Inr \<lparr>Name = ''values=1024'', Date = ''20230102'', OpsSec = 1100, WriteAmp = 1,
          SummaryPath = ''20230102-pebble-write-values=1024-1-summary.json''\<rparr>"
    using summarize_value[of example_run_amp findOptimalSplit] v p
    by (simp add: example_run_amp_def opsPerSecSplit_def findOptimalSplit_def wrap_int_def
        signed_divide_int_def)
  then show ?thesis using m by simp
qed

subsection \<open>The two artifacts agree on the throughput\<close>






section \<open>The raw data of a worker run as CSV\<close>

lemma digit_char_not_newline: "d < 10 \<Longrightarrow> digit_char d \<noteq> newline"
proof
  assume d: "d < 10" and "digit_char d = newline"
  then have "(of_char (digit_char d) :: nat) = of_char newline" by simp
  then have "(48 + d) mod 256 = 10" by (simp add: digit_char_def newline_def)
  then show False using d by simp
qed

lemma digits_no_newline: "newline \<notin> set (digits n)"
proof (induction n rule: digits.induct)
  case (1 n)
  show ?case
  proof (cases "n < 10")
    case True
    then show ?thesis using digit_char_not_newline[of n] by (subst digits.simps) auto
  next
    case False
    then show ?thesis using 1 digit_char_not_newline[of "n mod 10"] by (subst digits.simps) auto
  qed
qed

lemma fmt_d_no_newline: "newline \<notin> set (fmt_d i)"
  using digits_no_newline by (simp add: fmt_d_def newline_def)

lemma fmt_v_no_newline: "newline \<notin> set (fmt_v b)"
  by (simp add: fmt_v_def newline_def)

lemma fmt_f2_no_newline: "newline \<notin> set (fmt_f2 x)"
proof -
  have "newline \<noteq> digit_char (n mod 10)" for n
    using digit_char_not_newline[of "n mod 10"] by auto
  moreover have "CHR ''-'' \<noteq> newline" "CHR ''.'' \<noteq> newline" by (simp_all add: newline_def)
  ultimately show ?thesis using digits_no_newline by (auto simp: fmt_f2_def Let_def)
qed

lemma writePoint_formatCSV_no_newline: "newline \<notin> set (writePoint_formatCSV p)"
proof -
  have "CHR '','' \<noteq> newline" by (simp add: newline_def)
  then show ?thesis
    using fmt_d_no_newline fmt_v_no_newline fmt_f2_no_newline
    by (auto simp: writePoint_formatCSV_def)
qed

lemma strings_Split_row:
  "c \<notin> set row \<Longrightarrow> strings_Split (row @ c # rest) c = row # strings_Split rest c"
  by (induction row) (auto split: list.splits)

lemma strings_Split_rows:
  "\<forall>row \<in> set rows. c \<notin> set row \<Longrightarrow>
     strings_Split (concat (map (\<lambda>row. row @ [c]) rows)) c = rows @ [[]]"
  by (induction rows) (simp_all add: strings_Split_row)

lemma fold_append_rows:
  "fold (\<lambda>p b. b @ f p @ [c]) ps acc = acc @ concat (map (\<lambda>p. f p @ [c]) ps)"
  by (induction ps arbitrary: acc) simp_all

lemma round_half_even_close: "0 \<le> q \<Longrightarrow> \<bar>real (round_half_even q) - q\<bar> \<le> 1 / 2"
proof -
  assume q: "0 \<le> q"
  define f where "f = \<lfloor>q\<rfloor>"
  have f: "of_int f \<le> q" "q < of_int f + 1" unfolding f_def by linarith+
  have f0: "0 \<le> f" using q unfolding f_def by simp
  have "round_half_even q = nat (if q - of_int f < 1 / 2 then f else if 1 / 2 < q - of_int f then f + 1 else if even f then f else f + 1)"
    by (simp add: round_half_even_def f_def Let_def)
  then show ?thesis using f f0 by (auto split: if_splits)
qed

text \<open>
  C9 (as amended). The CSV text of a worker run is its points in order, each rendered as
  a row and each row followed by a newline (also the last one): split at the newlines it
  gives exactly the rows and an empty rest. A row is the six fields \<open>elapsedSecs\<close>,
  \<open>opsSec\<close>, \<open>passed\<close>, \<open>size\<close>, \<open>levels\<close>, \<open>writeAmp\<close> joined by commas, and the
  write amplification is printed as a sign, the digits of a whole number, a point and two
  digits, the number of hundredths printed being at most half a hundredth from the value.
\<close>

theorem C9_formatCSV_rows:
  "rawWriteRun_formatCSV r = concat (map (\<lambda>p. writePoint_formatCSV p @ [newline]) (points r))
   \<and> strings_Split (rawWriteRun_formatCSV r) newline = map writePoint_formatCSV (points r) @ [[]]
   \<and> writePoint_formatCSV p =
       strings_Join [fmt_d (elapsedSecs p), fmt_d (opsSec p), fmt_v (passed p), fmt_d (int (size_p p)),
                     fmt_d (levels p), fmt_f2 (writeAmp p)] [CHR '','']
   \<and> (\<exists>n. fmt_f2 x = (if x < 0 then [CHR ''-''] else []) @ digits (n div 100) @ [CHR ''.'']
                         @ [digit_char (n div 10 mod 10), digit_char (n mod 10)]
           \<and> \<bar>real n / 100 - \<bar>x\<bar>\<bar> \<le> 1 / 200)"
proof -
  have 1: "rawWriteRun_formatCSV r = concat (map (\<lambda>p. writePoint_formatCSV p @ [newline]) (points r))"
    by (simp add: rawWriteRun_formatCSV_def fold_append_rows)
  have "strings_Split (concat (map (\<lambda>row. row @ [newline]) (map writePoint_formatCSV (points r)))) newline
        = map writePoint_formatCSV (points r) @ [[]]"
    by (rule strings_Split_rows) (simp add: writePoint_formatCSV_no_newline)
  then have 2: "strings_Split (rawWriteRun_formatCSV r) newline = map writePoint_formatCSV (points r) @ [[]]"
    by (simp add: 1 comp_def)
  have 3: "writePoint_formatCSV p =
       strings_Join [fmt_d (elapsedSecs p), fmt_d (opsSec p), fmt_v (passed p), fmt_d (int (size_p p)),
                     fmt_d (levels p), fmt_f2 (writeAmp p)] [CHR '','']"
    by (simp add: writePoint_formatCSV_def)
  have "\<bar>real (round_half_even (\<bar>x\<bar> * 100)) - \<bar>x\<bar> * 100\<bar> \<le> 1 / 2"
    by (rule round_half_even_close) simp
  then have "\<bar>real (round_half_even (\<bar>x\<bar> * 100)) / 100 - \<bar>x\<bar>\<bar> \<le> 1 / 200"
    by (simp add: field_simps abs_le_iff)
  then have 4: "\<exists>n. fmt_f2 x = (if x < 0 then [CHR ''-''] else []) @ digits (n div 100) @ [CHR ''.'']
                         @ [digit_char (n div 10 mod 10), digit_char (n mod 10)]
           \<and> \<bar>real n / 100 - \<bar>x\<bar>\<bar> \<le> 1 / 200"
    by (intro exI[of _ "round_half_even (\<bar>x\<bar> * 100)"]) (simp add: fmt_f2_def Let_def)
  show ?thesis using 1 2 3 4 by blast
qed

text \<open>
  As the claim is worded, the rows are joined by newlines. A run with the single point
  \<open>5,1000,true,1024,3,2.50\<close> gives that row followed by a newline, which is not the row
  joined with nothing.
\<close>

theorem C9_joined_counterexample:
  "rawWriteRun_formatCSV
     \<lparr>points = [\<lparr>elapsedSecs = 5, opsSec = 1000, passed = True, size_p = 1024, levels = 3,
                  writeAmp = 5 / 2\<rparr>], split = 0\<rparr>
     = ''5,1000,true,1024,3,2.50'' @ [newline]
   \<and> strings_Join (map writePoint_formatCSV
        [\<lparr>elapsedSecs = 5, opsSec = 1000, passed = True, size_p = 1024, levels = 3,
           writeAmp = 5 / 2\<rparr>]) [newline]
     = ''5,1000,true,1024,3,2.50''
   \<and> rawWriteRun_formatCSV
     \<lparr>points = [\<lparr>elapsedSecs = 5, opsSec = 1000, passed = True, size_p = 1024, levels = 3,
                  writeAmp = 5 / 2\<rparr>], split = 0\<rparr>
     \<noteq> strings_Join (map writePoint_formatCSV
        [\<lparr>elapsedSecs = 5, opsSec = 1000, passed = True, size_p = 1024, levels = 3,
           writeAmp = 5 / 2\<rparr>]) [newline]"
proof -
  have row: "writePoint_formatCSV
      \<lparr>elapsedSecs = 5, opsSec = 1000, passed = True, size_p = 1024, levels = 3, writeAmp = 5 / 2\<rparr>
      = ''5,1000,true,1024,3,2.50''"
    by code_simp
  show ?thesis by (simp add: rawWriteRun_formatCSV_def row)
qed

section \<open>Reading a file line by line\<close>

lemma seconds_5s: "seconds 5000000000 = 5"
  by code_simp



lemma scanLine_first:
  assumes "prefix ''BenchmarkRaw'' line" "sc_err (Sscanf line) = None" "sc_n (Sscanf line) = 7"
    and "\<not> ck (sc_nameInner (Sscanf line), day)"
  shows "scanLine Sscanf PD ck day pr line [] r err =
     (case PD (sc_elapsed (Sscanf line)) of
        Inl e \<Rightarrow> Next (sc_nameInner (Sscanf line)) r (err @ [LineError line (Some e)])
      | Inr secs \<Rightarrow> Next (sc_nameInner (Sscanf line))
                     (r\<lparr>points := points r @ [scannedPoint (Sscanf line) secs]\<rparr>) err)"
  using assms by (simp add: scanLine_def Let_def)

lemma scanLine_later:
  assumes "prefix ''BenchmarkRaw'' line" "sc_err (Sscanf line) = None" "sc_n (Sscanf line) = 7"
    and "nm \<noteq> []"
  shows "scanLine Sscanf PD ck day pr line nm r err =
     (let err2 = (if nm \<noteq> sc_nameInner (Sscanf line)
                  then err @ [NameDiffers (sc_nameInner (Sscanf line)) nm line] else err)
      in case PD (sc_elapsed (Sscanf line)) of
        Inl e \<Rightarrow> Next nm r (err2 @ [LineError line (Some e)])
      | Inr secs \<Rightarrow> Next nm (r\<lparr>points := points r @ [scannedPoint (Sscanf line) secs]\<rparr>) err2)"
  using assms by (simp add: scanLine_def Let_def)

lemma scanLine_named:
  "nm \<noteq> [] \<Longrightarrow> \<exists>r' err'. scanLine Sscanf PD ck day pr line nm r err = Next nm r' err'"
  by (auto simp: scanLine_def Let_def split: sum.splits)

lemma scanLines_named:
  "nm \<noteq> [] \<Longrightarrow> \<exists>r' err'. scanLines Sscanf PD ck day pr ls nm r err = Next nm r' err'"
proof (induction ls arbitrary: r err)
  case Nil
  then show ?case by simp
next
  case (Cons line ls)
  obtain r1 err1 where "scanLine Sscanf PD ck day pr line nm r err = Next nm r1 err1"
    using scanLine_named[OF Cons.prems] by blast
  then show ?case using Cons.IH[OF Cons.prems, of r1 err1] by simp
qed


lemma addRawRun_stderr:
  "points raw \<noteq> [] \<Longrightarrow>
     stderr (addRawRun l nm day p raw) = stderr l @ [AddingRawRun nm day (length (points raw)) p]"
  by (simp add: addRawRun_def Let_def)

lemma ex_lines:
  "prefix ''BenchmarkRaw'' line_ok1" "prefix ''BenchmarkRaw'' line_ok2" "prefix ''BenchmarkRaw'' line_bad"
  "prefix ''BenchmarkRaw'' line_baddur" "\<not> prefix ''BenchmarkRaw'' line_noise"
  by (simp_all add: line_ok1_def line_ok2_def line_bad_def line_baddur_def line_noise_def)

lemma ex_scan:
  "example_Sscanf line_ok1 = \<lparr>sc_n = 7, sc_err = None, sc_nameInner = ''values=1024'', sc_opsSec = 1000, sc_passed = True,
         sc_elapsed = ''5s'', sc_size = 1024, sc_levels = 3, sc_writeAmp = 2\<rparr>"
  "example_Sscanf line_baddur = \<lparr>sc_n = 7, sc_err = None, sc_nameInner = ''values=64'', sc_opsSec = 900, sc_passed = True,
         sc_elapsed = ''soon'', sc_size = 64, sc_levels = 2, sc_writeAmp = 3 / 2\<rparr>"
  by (simp_all add: example_Sscanf_def line_ok1_def line_ok2_def line_bad_def line_baddur_def
      line_ok64_def)




text \<open>
  As the claim is worded, a record whose duration does not parse is skipped like any
  malformed record, and a file with one such record and one well-formed record gives a
  worker run of one sample. With \<open>values=64\<close> cooked for the day, the log that starts with
  the record of \<open>values=64\<close> whose duration does not parse is skipped at that line: the
  well-formed record after it is never read and no worker run is added.
\<close>

theorem C5_skipped_file_counterexample:
  "workloads (snd (walkFn example_Sscanf example_ParseDuration example_file_baddur
       (snd (loadCooked (newWriteLoader ''data'' ''write-throughput'') example_fs_cooked64)))) = []
   \<and> stderr (snd (walkFn example_Sscanf example_ParseDuration example_file_baddur
       (snd (loadCooked (newWriteLoader ''data'' ''write-throughput'') example_fs_cooked64))))
      = [Skipping ''20230102/pebble/write/values=1024/1/w3.log'' ''values=64'' ''20230102'']"
  by (simp add: walkFn_def loadCooked_def markCooked_def example_fs_cooked64_def
      example_file_baddur_def newWriteLoader_def PathSeparator_def scanLine_def ex_lines ex_scan
      rawWriteRun_zero_def Let_def)

text \<open>
  C6 (as amended). The first line that \<open>Sscanf\<close> accepts establishes the name of the file,
  whether or not its duration parses afterwards (unless its workload and day are cooked,
  in which case the file is skipped). Once a name is established, a later accepted line
  whose name differs is reported and then processed like any other: its point is added
  if its duration parses. With a name established the scan of the remaining lines always
  reaches the end of the file under that name.
\<close>

theorem C6_canonical_name:
  "(prefix ''BenchmarkRaw'' line \<and> sc_err (Sscanf line) = None \<and> sc_n (Sscanf line) = 7
      \<and> \<not> ck (sc_nameInner (Sscanf line), day) \<longrightarrow>
      (\<exists>r' err'. scanLine Sscanf PD ck day pr line [] r err = Next (sc_nameInner (Sscanf line)) r' err'))
   \<and> (nm \<noteq> [] \<and> prefix ''BenchmarkRaw'' line \<and> sc_err (Sscanf line) = None \<and> sc_n (Sscanf line) = 7
        \<and> sc_nameInner (Sscanf line) \<noteq> nm \<longrightarrow>
        scanLine Sscanf PD ck day pr line nm r err =
          (case PD (sc_elapsed (Sscanf line)) of
             Inl e \<Rightarrow> Next nm r (err @ [NameDiffers (sc_nameInner (Sscanf line)) nm line, LineError line (Some e)])
           | Inr secs \<Rightarrow> Next nm (r\<lparr>points := points r @ [scannedPoint (Sscanf line) secs]\<rparr>)
                           (err @ [NameDiffers (sc_nameInner (Sscanf line)) nm line])))
   \<and> (nm \<noteq> [] \<longrightarrow> (\<exists>r' err'. scanLines Sscanf PD ck day pr ls nm r err = Next nm r' err'))"
proof (intro conjI impI)
  assume a: "prefix ''BenchmarkRaw'' line \<and> sc_err (Sscanf line) = None \<and> sc_n (Sscanf line) = 7
      \<and> \<not> ck (sc_nameInner (Sscanf line), day)"
  then show "\<exists>r' err'. scanLine Sscanf PD ck day pr line [] r err = Next (sc_nameInner (Sscanf line)) r' err'"
    using scanLine_first[of line Sscanf ck day PD pr r err] by (auto split: sum.splits)
next
  assume "nm \<noteq> [] \<and> prefix ''BenchmarkRaw'' line \<and> sc_err (Sscanf line) = None \<and> sc_n (Sscanf line) = 7
        \<and> sc_nameInner (Sscanf line) \<noteq> nm"
  then show "scanLine Sscanf PD ck day pr line nm r err =
          (case PD (sc_elapsed (Sscanf line)) of
             Inl e \<Rightarrow> Next nm r (err @ [NameDiffers (sc_nameInner (Sscanf line)) nm line, LineError line (Some e)])
           | Inr secs \<Rightarrow> Next nm (r\<lparr>points := points r @ [scannedPoint (Sscanf line) secs]\<rparr>)
                           (err @ [NameDiffers (sc_nameInner (Sscanf line)) nm line]))"
    using scanLine_later[of line Sscanf nm PD ck day pr r err] by (auto split: sum.splits)
next
  assume "nm \<noteq> []"
  then show "\<exists>r' err'. scanLines Sscanf PD ck day pr ls nm r err = Next nm r' err'"
    by (rule scanLines_named)
qed

theorem C6_canonical_name_witness:
  "(\<exists>r' err'. scanLine example_Sscanf example_ParseDuration (\<lambda>_. False) ''20230102'' ''p'' line_baddur [] rawWriteRun_zero [] = Next ''values=64'' r' err')
  \<and> scanLine example_Sscanf example_ParseDuration (\<lambda>_. False) ''20230102'' ''p'' line_ok1 ''values=64'' rawWriteRun_zero []
      = Next ''values=64'' \<lparr>points = [\<lparr>elapsedSecs = 5, opsSec = 1000, passed = True, size_p = 1024, levels = 3, writeAmp = 2\<rparr>], split = 0\<rparr>
         [NameDiffers ''values=1024'' ''values=64'' line_ok1]"
  using C6_canonical_name [of line_baddur example_Sscanf "\<lambda>_. False" "''20230102''" example_ParseDuration "''p''" rawWriteRun_zero "[]" "''values=64''" "[]"]
    C6_canonical_name [of line_ok1 example_Sscanf "\<lambda>_. False" "''20230102''" example_ParseDuration "''p''" rawWriteRun_zero "[]" "''values=64''" "[]"]
  by (simp add: ex_lines ex_scan example_ParseDuration_def rawWriteRun_zero_def scannedPoint_def seconds_5s)


text \<open>
  As the claim is worded, the name comes from the first line that passes every conversion,
  the duration included. In a file whose first record is of \<open>values=64\<close> with a duration
  that does not parse and whose second record is a well-formed one of \<open>values=1024\<close>, that
  would be \<open>values=1024\<close>. The program files the run under \<open>values=64\<close> and reports the
  second record as one whose name differs.
\<close>

theorem C6_first_accepted_line_counterexample:
  "scanLines example_Sscanf example_ParseDuration (cooked (newWriteLoader ''data'' ''write-throughput''))
      ''20230102'' ''20230102/pebble/write/values=64/1/w1.log''
      [line_baddur, line_ok1] [] rawWriteRun_zero []
     = Next ''values=64''
         \<lparr>points = [\<lparr>elapsedSecs = 5, opsSec = 1000, passed = True, size_p = 1024, levels = 3, writeAmp = 2\<rparr>], split = 0\<rparr>
         [LineError line_baddur (Some (Err ''time: invalid duration'')),
          NameDiffers ''values=1024'' ''values=64'' line_ok1]
   \<and> firstFullyParsedName example_Sscanf example_ParseDuration [line_baddur, line_ok1] = Some ''values=1024''"
  by (simp add: scanLine_def ex_lines ex_scan example_ParseDuration_def rawWriteRun_zero_def
      scannedPoint_def seconds_5s Let_def newWriteLoader_def)

section \<open>Loading the cooked summary\<close>

text \<open>
  C7. When reading the top-level summary file fails because the file does not exist,
  \<open>loadCooked\<close> returns no error and leaves the loader as it was (for a new loader: no
  cooked day, no cooked summary). When the file is there and \<open>json.Unmarshal\<close> rejects
  its content, \<open>loadCooked\<close> returns that error, and \<open>parseWrite\<close> returns it at once:
  nothing is read or written and nothing is printed.
\<close>

theorem C7_loadCooked_errors:
  "(summaryFile fs = Inl ErrNotExist \<longrightarrow>
      loadCooked (newWriteLoader dd sd) fs = (None, newWriteLoader dd sd))
   \<and> (summaryFile fs = Inr b \<and> json_Unmarshal b = Inl e \<longrightarrow>
         loadCooked (newWriteLoader dd sd) fs = (Some (Error e), newWriteLoader dd sd)
       \<and> parseWrite fos Sscanf PD dd sd fs = (Some (Error e), fs, []))"
  by (simp add: loadCooked_def parseWrite_def Let_def newWriteLoader_def)

theorem C7_loadCooked_errors_witness:
  "loadCooked (newWriteLoader ''data'' ''write-throughput'') example_fs
     = (None, newWriteLoader ''data'' ''write-throughput'')
  \<and> parseWrite findOptimalSplit example_Sscanf example_ParseDuration ''data'' ''write-throughput'' example_fs_malformed = (Some (Error (Err ''invalid character'')), example_fs_malformed, [])"
  using C7_loadCooked_errors [of example_fs "''data''" "''write-throughput''"]
    C7_loadCooked_errors [of example_fs_malformed "''data''" "''write-throughput''" "NotJSON ''{values=1024: [''" "Err ''invalid character''" findOptimalSplit example_Sscanf example_ParseDuration]
  by (simp add: example_fs_def example_fs_malformed_def)


section \<open>The aggregation tree never faults\<close>

lemma set_update_cases:
  "(a, b) \<in> set (AList.update k v al) \<Longrightarrow> (a, b) = (k, v) \<or> (a, b) \<in> set al"
  by (induction al) (auto split: if_splits)

lemma update_nonempty: "AList.update k v al \<noteq> []"
  by (cases al) auto

lemma addRawRun_empty: "points raw = [] \<Longrightarrow> addRawRun l nm day p raw = l"
  by (simp add: addRawRun_def)

lemma addRawRun_treeOK:
  assumes "treeOK (workloads l)"
  shows "treeOK (workloads (addRawRun l nm day p raw))"
proof (cases "points raw = []")
  case True
  then show ?thesis using assms by (simp add: addRawRun_empty)
next
  case False
  define w where "w = (case map_of (workloads l) nm of None \<Rightarrow> \<lparr>days = []\<rparr> | Some w' \<Rightarrow> w')"
  define r where "r = (case map_of (days w) day of
       None \<Rightarrow> \<lparr>name = nm, date = day, dir = filepath_Dir p, rawRuns = []\<rparr> | Some r' \<Rightarrow> r')"
  define r2 where "r2 = r\<lparr>rawRuns := AList.update p raw (rawRuns r)\<rparr>"
  define w2 where "w2 = w\<lparr>days := AList.update day r2 (days w)\<rparr>"
  have ws: "workloads (addRawRun l nm day p raw) = AList.update nm w2 (workloads l)"
    using False by (simp add: addRawRun_def Let_def w_def r_def r2_def w2_def)
  have w_ok: "\<forall>(d, r) \<in> set (days w). runOK r"
  proof (cases "map_of (workloads l) nm")
    case None
    then show ?thesis by (simp add: w_def)
  next
    case (Some w')
    then have "(nm, w') \<in> set (workloads l)" by (rule map_of_SomeD)
    then show ?thesis using assms Some by (auto simp: w_def treeOK_def)
  qed
  have r_old: "\<forall>(p, raw) \<in> set (rawRuns r). points raw \<noteq> []"
  proof (cases "map_of (days w) day")
    case None
    then show ?thesis by (simp add: r_def)
  next
    case (Some r')
    then have "(day, r') \<in> set (days w)" by (rule map_of_SomeD)
    then show ?thesis using w_ok Some by (auto simp: r_def runOK_def)
  qed
  have r2_ok: "runOK r2"
    using r_old False by (auto simp: runOK_def r2_def update_nonempty dest!: set_update_cases)
  have w2_ok: "\<forall>(d, r) \<in> set (days w2). runOK r"
    using w_ok r2_ok by (auto simp: w2_def dest!: set_update_cases)
  show ?thesis
    unfolding ws treeOK_def using w2_ok assms by (auto simp: treeOK_def dest!: set_update_cases)
qed

lemma runOK_no_panic:
  assumes "runOK r"
  shows "\<exists>s. summarize fos r = Inr s \<and> Date s = date r \<and> Name s = name r"
  using summarize_value[of r fos] assms by (auto simp: runOK_def)

lemma fold_addRawRun_treeOK:
  "treeOK (workloads l) \<Longrightarrow>
     treeOK (workloads (fold (\<lambda>(nm, day, p, raw) l. addRawRun l nm day p raw) calls l))"
  by (induction calls arbitrary: l) (auto simp: addRawRun_treeOK)

lemma walkFn_treeOK:
  "treeOK (workloads l) \<Longrightarrow> treeOK (workloads (snd (walkFn Sscanf PD f l)))"
  by (auto simp: walkFn_def Let_def addRawRun_treeOK split: fileData.splits scan.splits)

lemma walkFn_None: "fst (walkFn Sscanf PD f l) = None"
  by (auto simp: walkFn_def Let_def split: fileData.splits scan.splits)

lemma walkDir_walkFn:
  "walkDir fs (walkFn Sscanf PD) l = (None, fold (\<lambda>f l. snd (walkFn Sscanf PD f l)) fs l)"
proof (induction fs arbitrary: l)
  case Nil
  then show ?case by simp
next
  case (Cons f fs)
  obtain l' where "walkFn Sscanf PD f l = (None, l')"
    using walkFn_None[of Sscanf PD f l] by (cases "walkFn Sscanf PD f l") auto
  then show ?case using Cons.IH by simp
qed

lemma loadRaw_eq:
  "loadRaw Sscanf PD l fs = (None, fold (\<lambda>f l. snd (walkFn Sscanf PD f l)) (dataFiles fs) l)"
  by (simp add: loadRaw_def walkDir_walkFn)

lemma loadRaw_treeOK:
  "treeOK (workloads l) \<Longrightarrow> treeOK (workloads (snd (loadRaw Sscanf PD l fs)))"
proof -
  have "treeOK (workloads l) \<Longrightarrow> treeOK (workloads (fold (\<lambda>f l. snd (walkFn Sscanf PD f l)) fls l))" for fls
    by (induction fls arbitrary: l) (auto simp: walkFn_treeOK)
  then show "treeOK (workloads l) \<Longrightarrow> treeOK (workloads (snd (loadRaw Sscanf PD l fs)))"
    by (simp add: loadRaw_eq)
qed

lemma summarizeDays_ok:
  assumes "\<forall>(d, r) \<in> set (days w). runOK r" and "set ds \<subseteq> fst ` set (days w)"
  shows "\<exists>ss. summarizeDays fos w ds acc = Inr (acc @ ss) \<and> map Date ss = map (\<lambda>d. date (the (map_of (days w) d))) ds"
  using assms(2)
proof (induction ds arbitrary: acc)
  case Nil
  then show ?case by simp
next
  case (Cons d ds)
  from Cons.prems obtain r where r: "map_of (days w) d = Some r"
    by (cases "map_of (days w) d") (auto simp: map_of_eq_None_iff)
  then have "(d, r) \<in> set (days w)" by (rule map_of_SomeD)
  then have "runOK r" using assms(1) by auto
  then obtain s where s: "summarize fos r = Inr s" "Date s = date r" using runOK_no_panic by blast
  obtain ss where ss: "summarizeDays fos w ds (acc @ [s]) = Inr ((acc @ [s]) @ ss)"
      "map Date ss = map (\<lambda>d. date (the (map_of (days w) d))) ds"
    using Cons.IH[of "acc @ [s]"] Cons.prems by auto
  show ?case
    by (rule exI[of _ "s # ss"]) (simp add: r s ss)
qed

lemma cookWriteSummary_ok:
  assumes "\<forall>(d, r) \<in> set (days w). runOK r"
  shows "\<exists>ss. cookWriteSummary fos w = Inr ss
           \<and> map Date ss = map (\<lambda>d. date (the (map_of (days w) d))) (sort (map fst (days w)))"
  using summarizeDays_ok[OF assms, of "sort (map fst (days w))" fos "[]"]
  by (simp add: cookWriteSummary_def)

lemma cookAll_ok:
  "treeOK ws \<Longrightarrow> \<exists>S. cookAll fos ws acc = Inr S"
proof (induction ws arbitrary: acc)
  case Nil
  then show ?case by simp
next
  case (Cons x ws)
  obtain n w where x: "x = (n, w)" by (cases x)
  have "\<forall>(d, r) \<in> set (days w). runOK r" using Cons.prems by (simp add: treeOK_def x)
  then obtain ss where "cookWriteSummary fos w = Inr ss" using cookWriteSummary_ok by blast
  moreover have "treeOK ws" using Cons.prems by (simp add: treeOK_def)
  ultimately show ?case using Cons.IH by (simp add: x)
qed

lemma writeDays_no_panic: "fst (writeDays fos sd ds fs) \<noteq> Some (Panic p)"
  by (induction ds arbitrary: fs) (auto simp: outputWriteRunSummary_def split: option.splits prod.splits)

lemma writeWorkloadRuns_no_panic: "fst (writeWorkloadRuns fos sd ws fs) \<noteq> Some (Panic p)"
proof (induction ws arbitrary: fs)
  case Nil
  then show ?case by simp
next
  case (Cons x ws)
  obtain n w where x: "x = (n, w)" by (cases x)
  show ?case using writeDays_no_panic[of fos sd "days w" fs p] Cons.IH
    by (auto simp: x split: prod.splits option.splits)
qed

lemma loadCooked_workloads: "workloads (snd (loadCooked l fs)) = workloads l"
proof -
  have m: "workloads (markCooked x l') = workloads l'" for x l'
  proof -
    obtain n ss where x: "x = (n, ss)" by (cases x)
    have "workloads (fold (\<lambda>runSummary l'. l'\<lparr>cooked := (cooked l')((n, Date runSummary) := True)\<rparr>) ss l') = workloads l'"
      by (induction ss arbitrary: l') simp_all
    then show ?thesis by (simp add: markCooked_def x)
  qed
  have "workloads (fold markCooked S l') = workloads l'" for S l'
    by (induction S arbitrary: l') (simp_all add: m)
  then show ?thesis
    by (auto simp: loadCooked_def split: sum.splits)
qed

lemma parseWrite_no_panic: "fst (parseWrite fos Sscanf PD dd sd fs) \<noteq> Some (Panic p)"
proof -
  let ?l0 = "newWriteLoader dd sd"
  obtain e1 l1 where lc: "loadCooked ?l0 fs = (e1, l1)" by (cases "loadCooked ?l0 fs")
  have e1: "e1 \<noteq> Some (Panic p)"
    using lc by (auto simp: loadCooked_def split: sum.splits if_splits)
  have "workloads l1 = []" using loadCooked_workloads[of ?l0 fs] lc by (simp add: newWriteLoader_def)
  then have ok1: "treeOK (workloads l1)" by (simp add: treeOK_def)
  obtain l2 where lr: "loadRaw Sscanf PD l1 fs = (None, l2)" by (simp add: loadRaw_eq)
  have ok2: "treeOK (workloads l2)" using loadRaw_treeOK[OF ok1, of Sscanf PD fs] lr by simp
  obtain S where S: "cookAll fos (workloads l2) [] = Inr S" using cookAll_ok[OF ok2] by blast
  have cs: "fst (cookSummary fos l2 fs) \<noteq> Some (Panic p)"
    by (auto simp: cookSummary_def mergedSummary_def S Let_def split: option.splits)
  have wr: "writeWorkloadRuns fos (summaryDir l2) (workloads l2) fs' \<noteq> (Some (Panic p), fs'')" for fs' fs''
    using writeWorkloadRuns_no_panic[of fos "summaryDir l2" "workloads l2" fs' p] by auto
  show ?thesis
    using e1 cs wr
    by (auto simp: parseWrite_def Let_def lc lr cookWriteRunSummaries_def split: option.splits prod.splits)
qed

text \<open>
  C8. \<open>addRawRun\<close> leaves the loader untouched when the raw run has no point. In the tree
  that any sequence of \<open>addRawRun\<close> calls builds from a new loader, every run has a raw
  run, every raw run has a point, so that \<open>rawWriteRun.writeAmp\<close> returns the write
  amplification of the last point, and \<open>summarize\<close> returns a summary. \<open>parseWrite\<close> as a
  whole never panics.
\<close>

theorem C8_tree_never_faults:
  fixes calls :: "(string \<times> string \<times> string \<times> rawWriteRun) list" and dd sd :: string
  defines "l' \<equiv> fold (\<lambda>(nm, day, p, raw) l. addRawRun l nm day p raw) calls (newWriteLoader dd sd)"
  shows "(points raw = [] \<longrightarrow> addRawRun l nm day p raw = l)
       \<and> (\<forall>(n, w) \<in> set (workloads l'). \<forall>(d, r) \<in> set (days w).
            rawRuns r \<noteq> []
            \<and> (\<forall>(p, raw) \<in> set (rawRuns r). points raw \<noteq> []
                  \<and> rawWriteRun_writeAmp raw = Inr (writeAmp (last (points raw))))
            \<and> (\<exists>s. summarize fos r = Inr s))
       \<and> (\<forall>p. fst (parseWrite fos Sscanf PD dd sd fs) \<noteq> Some (Panic p))"
proof -
  have "treeOK (workloads (newWriteLoader dd sd))" by (simp add: treeOK_def newWriteLoader_def)
  then have "treeOK (workloads l')" unfolding l'_def by (rule fold_addRawRun_treeOK)
  then have "\<forall>(n, w) \<in> set (workloads l'). \<forall>(d, r) \<in> set (days w).
            rawRuns r \<noteq> []
            \<and> (\<forall>(p, raw) \<in> set (rawRuns r). points raw \<noteq> []
                  \<and> rawWriteRun_writeAmp raw = Inr (writeAmp (last (points raw))))
            \<and> (\<exists>s. summarize fos r = Inr s)"
    using runOK_no_panic[of _ fos] by (fastforce simp: treeOK_def runOK_def rawWriteRun_writeAmp_ok)
  then show ?thesis using parseWrite_no_panic addRawRun_empty by blast
qed

theorem C8_tree_never_faults_witness:
  "\<exists>w r s.
     workloads (fold (\<lambda>(nm, day, p, raw) l. addRawRun l nm day p raw)
        [(''values=1024'', ''20230102'', ''20230102/pebble/write/values=1024/1/w1.log'',
          \<lparr>points = [\<lparr>elapsedSecs = 5, opsSec = 1000, passed = True, size_p = 1024, levels = 3, writeAmp = 2\<rparr>], split = 0\<rparr>),
         (''values=1024'', ''20230102'', ''20230102/pebble/write/values=1024/1/w2.log'', \<lparr>points = [], split = 0\<rparr>)]
        (newWriteLoader ''data'' ''write-throughput'')) = [(''values=1024'', w)]
     \<and> days w = [(''20230102'', r)]
     \<and> map fst (rawRuns r) = [''20230102/pebble/write/values=1024/1/w1.log'']
     \<and> summarize findOptimalSplit r = Inr s"
  using C8_tree_never_faults [where calls = "[(''values=1024'', ''20230102'', ''20230102/pebble/write/values=1024/1/w1.log'',
          \<lparr>points = [\<lparr>elapsedSecs = 5, opsSec = 1000, passed = True, size_p = 1024, levels = 3, writeAmp = 2\<rparr>], split = 0\<rparr>),
         (''values=1024'', ''20230102'', ''20230102/pebble/write/values=1024/1/w2.log'', \<lparr>points = [], split = 0\<rparr>)]"
       and dd = "''data''" and sd = "''write-throughput''" and fos = findOptimalSplit]
  by (simp add: addRawRun_def newWriteLoader_def Let_def)

section \<open>Skipping what is cooked\<close>

subsection \<open>The scan of a file\<close>

lemma scanLine_log:
  "scanLine Sscanf PD ck day pr line nm r err =
     (case scanLine Sscanf PD ck day pr line nm r [] of
        Next n r' e \<Rightarrow> Next n r' (err @ e) | Return e \<Rightarrow> Return (err @ e))"
  by (auto simp: scanLine_def Let_def split: sum.splits)

lemma scanLines_log:
  "scanLines Sscanf PD ck day pr ls nm r err =
     (case scanLines Sscanf PD ck day pr ls nm r [] of
        Next n r' e \<Rightarrow> Next n r' (err @ e) | Return e \<Rightarrow> Return (err @ e))"
proof (induction ls arbitrary: nm r err)
  case Nil
  then show ?case by simp
next
  case (Cons line ls)
  show ?case
  proof (cases "scanLine Sscanf PD ck day pr line nm r []")
    case (Next n1 r1 e1)
    then have 1: "scanLine Sscanf PD ck day pr line nm r err = Next n1 r1 (err @ e1)"
      by (subst scanLine_log) simp
    have A: "scanLines Sscanf PD ck day pr ls n1 r1 (err @ e1) =
       (case scanLines Sscanf PD ck day pr ls n1 r1 [] of
          Next n r' e \<Rightarrow> Next n r' ((err @ e1) @ e) | Return e \<Rightarrow> Return ((err @ e1) @ e))"
      by (rule Cons.IH)
    have B: "scanLines Sscanf PD ck day pr ls n1 r1 e1 =
       (case scanLines Sscanf PD ck day pr ls n1 r1 [] of
          Next n r' e \<Rightarrow> Next n r' (e1 @ e) | Return e \<Rightarrow> Return (e1 @ e))"
      by (rule Cons.IH)
    show ?thesis
      by (simp add: 1 Next A B split: scan.splits)
  next
    case (Return e1)
    then have 1: "scanLine Sscanf PD ck day pr line nm r err = Return (err @ e1)"
      by (subst scanLine_log) simp
    show ?thesis by (simp add: 1 Return)
  qed
qed

lemma scanLine_noAdding:
  "scanLine Sscanf PD ck day pr line nm r [] = Next n r' e \<or>
   scanLine Sscanf PD ck day pr line nm r [] = Return e \<Longrightarrow> \<forall>d \<in> set e. \<not> isAdding d"
  by (auto simp: scanLine_def Let_def isAdding_def split: if_splits sum.splits)

lemma scanLines_noAdding:
  "scanLines Sscanf PD ck day pr ls nm r [] = Next n r' e \<or>
   scanLines Sscanf PD ck day pr ls nm r [] = Return e \<Longrightarrow> \<forall>d \<in> set e. \<not> isAdding d"
proof (induction ls arbitrary: nm r e n r')
  case Nil
  then show ?case by simp
next
  case (Cons line ls)
  show ?case
  proof (cases "scanLine Sscanf PD ck day pr line nm r []")
    case (Next n1 r1 e1)
    have e1: "\<forall>d \<in> set e1. \<not> isAdding d" using scanLine_noAdding Next by blast
    show ?thesis
    proof (cases "scanLines Sscanf PD ck day pr ls n1 r1 []")
      case (Next n2 r2 e2)
      then have "\<forall>d \<in> set e2. \<not> isAdding d" using Cons.IH by blast
      moreover have "e = e1 @ e2"
        using Cons.prems \<open>scanLine Sscanf PD ck day pr line nm r [] = Next n1 r1 e1\<close> Next
        by (simp, subst (asm) (1 2) scanLines_log) auto
      ultimately show ?thesis using e1 by auto
    next
      case (Return e2)
      then have "\<forall>d \<in> set e2. \<not> isAdding d" using Cons.IH by blast
      moreover have "e = e1 @ e2"
        using Cons.prems \<open>scanLine Sscanf PD ck day pr line nm r [] = Next n1 r1 e1\<close> Return
        by (simp, subst (asm) (1 2) scanLines_log) auto
      ultimately show ?thesis using e1 by auto
    qed
  next
    case (Return e1)
    then show ?thesis using Cons.prems scanLine_noAdding[of Sscanf PD ck day pr line nm r] by auto
  qed
qed

lemma scanLine_fresh:
  assumes "scanLine Sscanf PD ck day pr line nm r err = Next nm2 r2 err2"
  shows "(nm \<noteq> [] \<longrightarrow> nm2 = nm)
       \<and> (nm = [] \<longrightarrow> (nm2 = [] \<and> r2 = r) \<or> \<not> ck (nm2, day))"
  using assms by (auto simp: scanLine_def Let_def split: if_splits sum.splits)

lemma scanLines_fresh:
  assumes "scanLines Sscanf PD ck day pr ls nm r err = Next nm' r' err'"
  shows "(nm \<noteq> [] \<longrightarrow> nm' = nm)
       \<and> (nm = [] \<and> (nm' \<noteq> [] \<or> points r' \<noteq> points r) \<longrightarrow> \<not> ck (nm', day))"
  using assms
proof (induction ls arbitrary: nm r err)
  case Nil
  then show ?case by simp
next
  case (Cons line ls)
  from Cons.prems obtain nm2 r2 err2 where
    1: "scanLine Sscanf PD ck day pr line nm r err = Next nm2 r2 err2" and
    2: "scanLines Sscanf PD ck day pr ls nm2 r2 err2 = Next nm' r' err'"
    by (auto split: scan.splits)
  note f1 = scanLine_fresh[OF 1] and ih = Cons.IH[OF 2]
  show ?case
  proof (intro conjI impI)
    assume "nm \<noteq> []"
    then show "nm' = nm" using f1 ih by auto
  next
    assume a: "nm = [] \<and> (nm' \<noteq> [] \<or> points r' \<noteq> points r)"
    show "\<not> ck (nm', day)"
    proof (cases "nm2 = []")
      case True
      then show ?thesis using f1 ih a by auto
    next
      case False
      then have "nm' = nm2" using ih by simp
      moreover have "\<not> ck (nm2, day)" using f1 a False by auto
      ultimately show ?thesis by simp
    qed
  qed
qed

lemma scanLine_weaken:
  assumes "\<And>x. ck0 x \<Longrightarrow> ck1 x"
    and "scanLine Sscanf PD ck1 day pr line nm r err = Next nm2 r2 err2"
  shows "scanLine Sscanf PD ck0 day pr line nm r err = Next nm2 r2 err2"
  using assms by (auto simp: scanLine_def Let_def split: if_splits sum.splits)

lemma scanLines_weaken:
  assumes "\<And>x. ck0 x \<Longrightarrow> ck1 x"
    and "scanLines Sscanf PD ck1 day pr ls nm r err = Next nm' r' err'"
  shows "scanLines Sscanf PD ck0 day pr ls nm r err = Next nm' r' err'"
  using assms(2)
proof (induction ls arbitrary: nm r err)
  case Nil
  then show ?case by simp
next
  case (Cons line ls)
  from Cons.prems obtain nm2 r2 err2 where
    1: "scanLine Sscanf PD ck1 day pr line nm r err = Next nm2 r2 err2" and
    2: "scanLines Sscanf PD ck1 day pr ls nm2 r2 err2 = Next nm' r' err'"
    by (auto split: scan.splits)
  show ?case using scanLine_weaken[OF assms(1) 1] Cons.IH[OF 2] by simp
qed

lemma fileScan_fresh:
  "fileScan Sscanf PD ck f = Some (nm, day, r) \<Longrightarrow> \<not> ck (nm, day) \<and> points r \<noteq> []"
  using scanLines_fresh[of Sscanf PD ck _ "pathRel f" _ "[]" rawWriteRun_zero "[]" nm r]
  by (auto simp: fileScan_def Let_def rawWriteRun_zero_def split: if_splits fileData.splits scan.splits)

lemma fileScan_weaken:
  assumes "\<And>x. ck0 x \<Longrightarrow> ck1 x" and "fileScan Sscanf PD ck1 f = Some k"
  shows "fileScan Sscanf PD ck0 f = Some k"
  using assms(2) scanLines_weaken[of ck0 ck1 Sscanf PD _ "pathRel f" _ "[]" rawWriteRun_zero "[]", OF assms(1)]
  by (auto simp: fileScan_def Let_def split: if_splits fileData.splits scan.splits)


subsection \<open>The cooked set\<close>

lemma fold_mark_one:
  fixes n :: string
  defines "step \<equiv> (\<lambda>runSummary l'. l'\<lparr>cooked := (cooked l')((n, Date runSummary) := True)\<rparr>)"
  shows "cooked (fold step ss l) x \<longleftrightarrow> cooked l x \<or> x \<in> (\<lambda>s. (n, Date s)) ` set ss"
    and "workloads (fold step ss l) = workloads l"
    and "summaryDir (fold step ss l) = summaryDir l"
    and "cookedSummaries (fold step ss l) = cookedSummaries l"
    and "stderr (fold step ss l) = stderr l"
  by (induction ss arbitrary: l) (auto simp: step_def)

lemma fold_markCooked:
  shows "cooked (fold markCooked S l) x \<longleftrightarrow> cooked l x \<or> x \<in> cookedKeys S"
    and "workloads (fold markCooked S l) = workloads l"
    and "summaryDir (fold markCooked S l) = summaryDir l"
    and "cookedSummaries (fold markCooked S l) = cookedSummaries l"
    and "stderr (fold markCooked S l) = stderr l"
proof (induction S arbitrary: l)
  case Nil
  {
    case 1 show ?case by (simp add: cookedKeys_def)
  next
    case 2 show ?case by simp
  next
    case 3 show ?case by simp
  next
    case 4 show ?case by simp
  next
    case 5 show ?case by simp
  }
next
  case (Cons a S)
  obtain n ss where a: "a = (n, ss)" by (cases a)
  have ck: "cookedKeys ((n, ss) # S) = (\<lambda>s. (n, Date s)) ` set ss \<union> cookedKeys S"
    by (auto simp: cookedKeys_def)
  have m: "markCooked (n, ss) l' =
      fold (\<lambda>runSummary l'. l'\<lparr>cooked := (cooked l')((n, Date runSummary) := True)\<rparr>) ss l'" for l'
    by (simp add: markCooked_def)
  {
    case 1 show ?case by (simp add: a m Cons.IH(1) fold_mark_one ck)
  next
    case 2 show ?case by (simp add: a m Cons.IH(2) fold_mark_one)
  next
    case 3 show ?case by (simp add: a m Cons.IH(3) fold_mark_one)
  next
    case 4 show ?case by (simp add: a m Cons.IH(4) fold_mark_one)
  next
    case 5 show ?case by (simp add: a m Cons.IH(5) fold_mark_one)
  }
qed

lemma loadCooked_new:
  assumes "loadCooked (newWriteLoader dd sd) fs = (None, l1)"
  shows "workloads l1 = []" and "summaryDir l1 = sd" and "stderr l1 = []"
    and "\<forall>x. cooked l1 x \<longleftrightarrow> x \<in> cookedKeys (cookedSummaries l1)"
    and "(summaryFile fs = Inl ErrNotExist \<and> cookedSummaries l1 = [])
         \<or> summaryFile fs = Inr (JSON (cookedSummaries l1))"
proof -
  let ?l0 = "newWriteLoader dd sd"
  consider "summaryFile fs = Inl ErrNotExist" "l1 = ?l0"
    | S where "summaryFile fs = Inr (JSON S)" "l1 = fold markCooked S (?l0\<lparr>cookedSummaries := S\<rparr>)"
    using assms
    by (auto simp: loadCooked_def split: sum.splits if_splits elim!: json_Unmarshal.elims)
  then have "workloads l1 = [] \<and> summaryDir l1 = sd \<and> stderr l1 = []
    \<and> (\<forall>x. cooked l1 x \<longleftrightarrow> x \<in> cookedKeys (cookedSummaries l1))
    \<and> ((summaryFile fs = Inl ErrNotExist \<and> cookedSummaries l1 = [])
         \<or> summaryFile fs = Inr (JSON (cookedSummaries l1)))"
  proof cases
    case 1
    then show ?thesis by (simp add: newWriteLoader_def cookedKeys_def)
  next
    case 2
    then show ?thesis by (simp add: fold_markCooked newWriteLoader_def)
  qed
  then show "workloads l1 = []" and "summaryDir l1 = sd" and "stderr l1 = []"
    and "\<forall>x. cooked l1 x \<longleftrightarrow> x \<in> cookedKeys (cookedSummaries l1)"
    and "(summaryFile fs = Inl ErrNotExist \<and> cookedSummaries l1 = [])
         \<or> summaryFile fs = Inr (JSON (cookedSummaries l1))"
    by blast+
qed

lemma loadCooked_JSON:
  assumes "summaryFile fs = Inr (JSON S)"
  shows "\<exists>l1. loadCooked (newWriteLoader dd sd) fs = (None, l1)"
  using assms by (simp add: loadCooked_def)

subsection \<open>Adding to the tree\<close>

lemma addRawRun_fields:
  "cooked (addRawRun l nm day p raw) = cooked l"
  "cookedSummaries (addRawRun l nm day p raw) = cookedSummaries l"
  "summaryDir (addRawRun l nm day p raw) = summaryDir l"
  by (simp_all add: addRawRun_def Let_def)

lemma addRawRun_treeKeys:
  assumes "points raw \<noteq> []"
  shows "treeKeys (workloads (addRawRun l nm day p raw)) = insert (nm, day) (treeKeys (workloads l))"
  using assms
  by (auto simp: addRawRun_def Let_def treeKeys_def update_conv' split: option.splits if_splits)

lemma addRawRun_treeInv:
  assumes inv: "treeInv ck (workloads l)" and fresh: "\<not> ck (nm, day)" and ne: "points raw \<noteq> []"
  shows "treeInv ck (workloads (addRawRun l nm day p raw))"
proof -
  define w where "w = (case map_of (workloads l) nm of None \<Rightarrow> \<lparr>days = []\<rparr> | Some w' \<Rightarrow> w')"
  define r where "r = (case map_of (days w) day of
       None \<Rightarrow> \<lparr>name = nm, date = day, dir = filepath_Dir p, rawRuns = []\<rparr> | Some r' \<Rightarrow> r')"
  define r2 where "r2 = r\<lparr>rawRuns := AList.update p raw (rawRuns r)\<rparr>"
  define w2 where "w2 = w\<lparr>days := AList.update day r2 (days w)\<rparr>"
  have ws: "workloads (addRawRun l nm day p raw) = AList.update nm w2 (workloads l)"
    using ne by (simp add: addRawRun_def Let_def w_def r_def r2_def w2_def)
  have w_ok: "distinct (map fst (days w))"
    "\<forall>(d, r) \<in> set (days w). date r = d \<and> \<not> ck (nm, d) \<and> runOK r"
  proof -
    show "distinct (map fst (days w))"
    proof (cases "map_of (workloads l) nm")
      case None
      then show ?thesis by (simp add: w_def)
    next
      case (Some w')
      then have "(nm, w') \<in> set (workloads l)" by (rule map_of_SomeD)
      then show ?thesis using inv Some by (auto simp: w_def treeInv_def)
    qed
    show "\<forall>(d, r) \<in> set (days w). date r = d \<and> \<not> ck (nm, d) \<and> runOK r"
    proof (cases "map_of (workloads l) nm")
      case None
      then show ?thesis by (simp add: w_def)
    next
      case (Some w')
      then have "(nm, w') \<in> set (workloads l)" by (rule map_of_SomeD)
      then show ?thesis using inv Some by (auto simp: w_def treeInv_def)
    qed
  qed
  have r_old: "date r = day" "\<forall>(p, raw) \<in> set (rawRuns r). points raw \<noteq> []"
  proof -
    show "date r = day"
    proof (cases "map_of (days w) day")
      case None
      then show ?thesis by (simp add: r_def)
    next
      case (Some r')
      then have "(day, r') \<in> set (days w)" by (rule map_of_SomeD)
      then show ?thesis using w_ok Some by (auto simp: r_def)
    qed
    show "\<forall>(p, raw) \<in> set (rawRuns r). points raw \<noteq> []"
    proof (cases "map_of (days w) day")
      case None
      then show ?thesis by (simp add: r_def)
    next
      case (Some r')
      then have "(day, r') \<in> set (days w)" by (rule map_of_SomeD)
      then show ?thesis using w_ok Some by (auto simp: r_def runOK_def)
    qed
  qed
  have r2_ok: "runOK r2" "date r2 = day"
    using r_old ne by (auto simp: runOK_def r2_def update_nonempty dest!: set_update_cases)
  have w2_ok: "distinct (map fst (days w2))"
    "\<forall>(d, r) \<in> set (days w2). date r = d \<and> \<not> ck (nm, d) \<and> runOK r"
    using w_ok r2_ok fresh by (auto simp: w2_def distinct_update dest!: set_update_cases)
  have "distinct (map fst (AList.update nm w2 (workloads l)))"
    using inv by (simp add: treeInv_def distinct_update)
  moreover have "\<forall>(n, w) \<in> set (AList.update nm w2 (workloads l)). distinct (map fst (days w))
           \<and> (\<forall>(d, r) \<in> set (days w). date r = d \<and> \<not> ck (n, d) \<and> runOK r)"
    using inv w2_ok by (auto simp: treeInv_def dest!: set_update_cases)
  ultimately show ?thesis unfolding ws treeInv_def by blast
qed

subsection \<open>One file, and all of them\<close>

lemma walkFn_fileScan_None:
  assumes "fileScan Sscanf PD (cooked l) f = None"
  shows "\<exists>e. snd (walkFn Sscanf PD f l) = l\<lparr>stderr := stderr l @ e\<rparr> \<and> (\<forall>d \<in> set e. \<not> isAdding d)"
proof -
  let ?parts = "strings_Split (pathRel f) PathSeparator"
  show ?thesis
  proof (cases "length ?parts < 6 \<or> ?parts ! 2 \<noteq> ''write''")
    case True
    then have "snd (walkFn Sscanf PD f l) = l\<lparr>stderr := stderr l @ []\<rparr>"
      by (auto simp: walkFn_def Let_def)
    then show ?thesis by (intro exI[of _ "[]"]) simp
  next
    case False
    show ?thesis
    proof (cases "contents f")
      case (OpenError e)
      then have "snd (walkFn Sscanf PD f l) = l\<lparr>stderr := stderr l @ [ErrorLine e]\<rparr>"
        using False by (auto simp: walkFn_def Let_def)
      then show ?thesis by (intro exI[of _ "[ErrorLine e]"]) (simp add: isAdding_def)
    next
      case (GzipError e)
      then have "snd (walkFn Sscanf PD f l) = l\<lparr>stderr := stderr l @ [ErrorLine e]\<rparr>"
        using False by (auto simp: walkFn_def Let_def)
      then show ?thesis by (intro exI[of _ "[ErrorLine e]"]) (simp add: isAdding_def)
    next
      case (Lines ls)
      let ?sc0 = "scanLines Sscanf PD (cooked l) (?parts ! 0) (pathRel f) ls [] rawWriteRun_zero []"
      have sc: "scanLines Sscanf PD (cooked l) (?parts ! 0) (pathRel f) ls [] rawWriteRun_zero (stderr l)
          = (case ?sc0 of Next n r' e \<Rightarrow> Next n r' (stderr l @ e) | Return e \<Rightarrow> Return (stderr l @ e))"
        by (rule scanLines_log)
      show ?thesis
      proof (cases ?sc0)
        case (Next n r' e)
        then have "points r' = []" using assms Lines False by (auto simp: fileScan_def Let_def split: if_splits)
        then have "snd (walkFn Sscanf PD f l) = l\<lparr>stderr := stderr l @ e\<rparr>"
          using False Lines sc Next by (auto simp: walkFn_def Let_def addRawRun_empty)
        moreover have "\<forall>d \<in> set e. \<not> isAdding d" using scanLines_noAdding Next by blast
        ultimately show ?thesis by blast
      next
        case (Return e)
        then have "snd (walkFn Sscanf PD f l) = l\<lparr>stderr := stderr l @ e\<rparr>"
          using False Lines sc by (auto simp: walkFn_def Let_def)
        moreover have "\<forall>d \<in> set e. \<not> isAdding d" using scanLines_noAdding Return by blast
        ultimately show ?thesis by blast
      qed
    qed
  qed
qed

lemma fileScan_SomeD:
  assumes "fileScan Sscanf PD ck f = Some (nm, day, r)"
  shows "\<exists>ls e. \<not> length (strings_Split (pathRel f) PathSeparator) < 6
           \<and> strings_Split (pathRel f) PathSeparator ! 2 = ''write''
           \<and> day = strings_Split (pathRel f) PathSeparator ! 0 \<and> contents f = Lines ls
           \<and> scanLines Sscanf PD ck day (pathRel f) ls [] rawWriteRun_zero [] = Next nm r e"
proof -
  let ?parts = "strings_Split (pathRel f) PathSeparator"
  have p: "\<not> (length ?parts < 6 \<or> ?parts ! 2 \<noteq> ''write'')"
    using assms unfolding fileScan_def Let_def by (meson option.distinct(1))
  then have 1: "(case contents f of
              Lines ls \<Rightarrow>
                (case scanLines Sscanf PD ck (?parts ! 0) (pathRel f) ls [] rawWriteRun_zero [] of
                   Next nm r e \<Rightarrow> if points r = [] then None else Some (nm, ?parts ! 0, r)
                 | Return e \<Rightarrow> None)
            | _ \<Rightarrow> None) = Some (nm, day, r)"
    using assms unfolding fileScan_def Let_def by simp
  then obtain ls where ls: "contents f = Lines ls" by (cases "contents f") simp_all
  from 1 ls have 2: "(case scanLines Sscanf PD ck (?parts ! 0) (pathRel f) ls [] rawWriteRun_zero [] of
                   Next nm r e \<Rightarrow> if points r = [] then None else Some (nm, ?parts ! 0, r)
                 | Return e \<Rightarrow> None) = Some (nm, day, r)" by simp
  then obtain n' r' e where sc: "scanLines Sscanf PD ck (?parts ! 0) (pathRel f) ls [] rawWriteRun_zero [] = Next n' r' e"
    by (cases "scanLines Sscanf PD ck (?parts ! 0) (pathRel f) ls [] rawWriteRun_zero []") simp_all
  from 2 sc have "n' = nm \<and> r' = r \<and> day = ?parts ! 0" by (simp split: if_splits)
  then show ?thesis using p ls sc by auto
qed

lemma walkFn_fileScan_Some:
  assumes "fileScan Sscanf PD (cooked l) f = Some (nm, day, r)"
  shows "\<exists>e. snd (walkFn Sscanf PD f l) = addRawRun (l\<lparr>stderr := stderr l @ e\<rparr>) nm day (pathRel f) r"
proof -
  let ?parts = "strings_Split (pathRel f) PathSeparator"
  from fileScan_SomeD[OF assms] obtain ls e where
    p: "\<not> length ?parts < 6" "?parts ! 2 = ''write''" and ls: "contents f = Lines ls"
    and sc0: "scanLines Sscanf PD (cooked l) day (pathRel f) ls [] rawWriteRun_zero [] = Next nm r e"
    and day: "day = ?parts ! 0"
    by blast
  have "scanLines Sscanf PD (cooked l) day (pathRel f) ls [] rawWriteRun_zero (stderr l)
          = Next nm r (stderr l @ e)"
    by (subst scanLines_log) (simp add: sc0)
  then have "snd (walkFn Sscanf PD f l) = addRawRun (l\<lparr>stderr := stderr l @ e\<rparr>) nm day (pathRel f) r"
    using p ls day by (simp add: walkFn_def Let_def)
  then show ?thesis by blast
qed

lemma walkFn_inv:
  fixes Sscanf :: sscanf and PD :: parseDuration and f :: dataFile
  assumes "treeInv (cooked l) (workloads l)"
  defines "l' \<equiv> snd (walkFn Sscanf PD f l)"
  shows "cooked l' = cooked l" and "cookedSummaries l' = cookedSummaries l" and "summaryDir l' = summaryDir l"
    and "treeInv (cooked l) (workloads l')"
    and "treeKeys (workloads l) \<subseteq> treeKeys (workloads l')"
    and "\<And>nm day r. fileScan Sscanf PD (cooked l) f = Some (nm, day, r) \<Longrightarrow> (nm, day) \<in> treeKeys (workloads l')"
proof -
  have "cooked l' = cooked l \<and> cookedSummaries l' = cookedSummaries l \<and> summaryDir l' = summaryDir l
      \<and> treeInv (cooked l) (workloads l') \<and> treeKeys (workloads l) \<subseteq> treeKeys (workloads l')
      \<and> (\<forall>nm day r. fileScan Sscanf PD (cooked l) f = Some (nm, day, r) \<longrightarrow> (nm, day) \<in> treeKeys (workloads l'))"
  proof (cases "fileScan Sscanf PD (cooked l) f")
    case None
    then obtain e where "l' = l\<lparr>stderr := stderr l @ e\<rparr>"
      using walkFn_fileScan_None[of Sscanf PD l f] by (auto simp: l'_def)
    then show ?thesis using assms(1) None by simp
  next
    case (Some k)
    obtain nm day r where k: "k = (nm, day, r)" by (cases k)
    obtain e where l': "l' = addRawRun (l\<lparr>stderr := stderr l @ e\<rparr>) nm day (pathRel f) r"
      using walkFn_fileScan_Some[of Sscanf PD l f nm day r] Some k by (auto simp: l'_def)
    have fr: "\<not> cooked l (nm, day)" "points r \<noteq> []" using fileScan_fresh Some k by blast+
    have "treeInv (cooked l) (workloads l')"
      unfolding l' using addRawRun_treeInv[of "cooked l" "l\<lparr>stderr := stderr l @ e\<rparr>" nm day r "pathRel f"]
        assms(1) fr by simp
    moreover have "treeKeys (workloads l') = insert (nm, day) (treeKeys (workloads l))"
      unfolding l' using addRawRun_treeKeys[OF fr(2), of "l\<lparr>stderr := stderr l @ e\<rparr>" nm day "pathRel f"] by simp
    ultimately show ?thesis using Some k by (auto simp: l' addRawRun_fields)
  qed
  then show "cooked l' = cooked l" and "cookedSummaries l' = cookedSummaries l" and "summaryDir l' = summaryDir l"
    and "treeInv (cooked l) (workloads l')"
    and "treeKeys (workloads l) \<subseteq> treeKeys (workloads l')"
    and "\<And>nm day r. fileScan Sscanf PD (cooked l) f = Some (nm, day, r) \<Longrightarrow> (nm, day) \<in> treeKeys (workloads l')"
    by blast+
qed

lemma ingest_inv:
  fixes Sscanf :: sscanf and PD :: parseDuration and files :: "dataFile list"
  assumes "treeInv (cooked l) (workloads l)"
  defines "l' \<equiv> ingest Sscanf PD files l"
  shows "cooked l' = cooked l \<and> cookedSummaries l' = cookedSummaries l \<and> summaryDir l' = summaryDir l
      \<and> treeInv (cooked l) (workloads l') \<and> treeKeys (workloads l) \<subseteq> treeKeys (workloads l')
      \<and> (\<forall>f \<in> set files. \<forall>nm day r. fileScan Sscanf PD (cooked l) f = Some (nm, day, r)
            \<longrightarrow> (nm, day) \<in> treeKeys (workloads l'))"
  using assms(1) unfolding l'_def
proof (induction files arbitrary: l)
  case Nil
  then show ?case by (simp add: ingest_def)
next
  case (Cons f files)
  define l1 where "l1 = snd (walkFn Sscanf PD f l)"
  note w = walkFn_inv[OF Cons.prems, of Sscanf PD f, folded l1_def]
  have inv1: "treeInv (cooked l1) (workloads l1)" using w(1,4) by simp
  have step: "ingest Sscanf PD (f # files) l = ingest Sscanf PD files l1"
    by (simp add: ingest_def l1_def)
  note ih = Cons.IH[OF inv1]
  show ?case unfolding step using ih w by (auto simp: subset_iff)
qed

lemma ingest_nothing:
  assumes "\<forall>f \<in> set files. fileScan Sscanf PD (cooked l) f = None"
  shows "\<exists>e. ingest Sscanf PD files l = l\<lparr>stderr := stderr l @ e\<rparr> \<and> (\<forall>d \<in> set e. \<not> isAdding d)"
  using assms
proof (induction files arbitrary: l)
  case Nil
  show ?case by (intro exI[of _ "[]"]) (simp add: ingest_def)
next
  case (Cons f files)
  obtain e1 where e1: "snd (walkFn Sscanf PD f l) = l\<lparr>stderr := stderr l @ e1\<rparr>" "\<forall>d \<in> set e1. \<not> isAdding d"
    using walkFn_fileScan_None[of Sscanf PD l f] Cons.prems by auto
  have "\<forall>f \<in> set files. fileScan Sscanf PD (cooked (l\<lparr>stderr := stderr l @ e1\<rparr>)) f = None"
    using Cons.prems by simp
  from Cons.IH[OF this] obtain e2 where
    e2: "ingest Sscanf PD files (l\<lparr>stderr := stderr l @ e1\<rparr>) = l\<lparr>stderr := stderr l @ e1 @ e2\<rparr>"
      "\<forall>d \<in> set e2. \<not> isAdding d"
    by auto
  show ?case
    by (intro exI[of _ "e1 @ e2"]) (use e1 e2 in \<open>auto simp: ingest_def\<close>)
qed


subsection \<open>What is printed\<close>

lemma fileLog_noAdding: "\<forall>d \<in> set (fileLog Sscanf PD ck f). \<not> isAdding d"
proof -
  let ?parts = "strings_Split (pathRel f) PathSeparator"
  show ?thesis
  proof (cases "length ?parts < 6 \<or> ?parts ! 2 \<noteq> ''write''")
    case True
    then show ?thesis by (auto simp: fileLog_def Let_def)
  next
    case False
    show ?thesis
    proof (cases "contents f")
      case (OpenError e)
      then show ?thesis using False by (auto simp: fileLog_def Let_def isAdding_def)
    next
      case (GzipError e)
      then show ?thesis using False by (auto simp: fileLog_def Let_def isAdding_def)
    next
      case (Lines ls)
      show ?thesis
      proof (cases "scanLines Sscanf PD ck (?parts ! 0) (pathRel f) ls [] rawWriteRun_zero []")
        case (Next n r' e)
        then have "\<forall>d \<in> set e. \<not> isAdding d" using scanLines_noAdding by blast
        then show ?thesis using False Lines Next by (auto simp: fileLog_def Let_def)
      next
        case (Return e)
        then have "\<forall>d \<in> set e. \<not> isAdding d" using scanLines_noAdding by blast
        then show ?thesis using False Lines Return by (auto simp: fileLog_def Let_def)
      qed
    qed
  qed
qed

lemma walkFn_fileLog:
  "snd (walkFn Sscanf PD f l) =
     (case fileScan Sscanf PD (cooked l) f of
        None \<Rightarrow> l\<lparr>stderr := stderr l @ fileLog Sscanf PD (cooked l) f\<rparr>
      | Some (nm, day, r) \<Rightarrow>
          addRawRun (l\<lparr>stderr := stderr l @ fileLog Sscanf PD (cooked l) f\<rparr>) nm day (pathRel f) r)"
proof -
  let ?parts = "strings_Split (pathRel f) PathSeparator"
  show ?thesis
  proof (cases "length ?parts < 6 \<or> ?parts ! 2 \<noteq> ''write''")
    case True
    then show ?thesis by (auto simp: walkFn_def fileScan_def fileLog_def Let_def)
  next
    case False
    show ?thesis
    proof (cases "contents f")
      case (OpenError e)
      then show ?thesis using False by (auto simp: walkFn_def fileScan_def fileLog_def Let_def)
    next
      case (GzipError e)
      then show ?thesis using False by (auto simp: walkFn_def fileScan_def fileLog_def Let_def)
    next
      case (Lines ls)
      let ?sc0 = "scanLines Sscanf PD (cooked l) (?parts ! 0) (pathRel f) ls [] rawWriteRun_zero []"
      have sc: "scanLines Sscanf PD (cooked l) (?parts ! 0) (pathRel f) ls [] rawWriteRun_zero (stderr l)
          = (case ?sc0 of Next n r' e \<Rightarrow> Next n r' (stderr l @ e) | Return e \<Rightarrow> Return (stderr l @ e))"
        by (rule scanLines_log)
      show ?thesis
      proof (cases ?sc0)
        case (Next n r' e)
        then show ?thesis using False Lines sc
          by (auto simp: walkFn_def fileScan_def fileLog_def Let_def addRawRun_empty)
      next
        case (Return e)
        then show ?thesis using False Lines sc
          by (auto simp: walkFn_def fileScan_def fileLog_def Let_def)
      qed
    qed
  qed
qed

lemma walkFn_cooked: "cooked (snd (walkFn Sscanf PD f l)) = cooked l"
  by (simp add: walkFn_fileLog addRawRun_fields split: option.splits)

lemma ingest_added:
  assumes "AddingRawRun nm day k p \<in> set (stderr (ingest Sscanf PD files l))"
  shows "AddingRawRun nm day k p \<in> set (stderr l)
       \<or> (\<exists>f \<in> set files. pathRel f = p \<and> (\<exists>r. fileScan Sscanf PD (cooked l) f = Some (nm, day, r)))"
  using assms
proof (induction files arbitrary: l)
  case Nil
  then show ?case by (simp add: ingest_def)
next
  case (Cons f files)
  define l1 where "l1 = snd (walkFn Sscanf PD f l)"
  have ck: "cooked l1 = cooked l" by (simp add: l1_def walkFn_cooked)
  have "AddingRawRun nm day k p \<in> set (stderr (ingest Sscanf PD files l1))"
    using Cons.prems by (simp add: ingest_def l1_def)
  from Cons.IH[OF this] consider
      (here) "AddingRawRun nm day k p \<in> set (stderr l1)"
    | (later) "\<exists>f \<in> set files. pathRel f = p \<and> (\<exists>r. fileScan Sscanf PD (cooked l) f = Some (nm, day, r))"
    unfolding ck by blast
  then show ?case
  proof cases
    case here
    have na: "AddingRawRun nm day k p \<notin> set (fileLog Sscanf PD (cooked l) f)"
      using fileLog_noAdding[of Sscanf PD "cooked l" f] by (auto simp: isAdding_def)
    show ?thesis
    proof (cases "fileScan Sscanf PD (cooked l) f")
      case None
      then show ?thesis using here na by (auto simp: l1_def walkFn_fileLog)
    next
      case (Some x)
      obtain nm' day' r where x: "x = (nm', day', r)" by (cases x)
      have ne: "points r \<noteq> []" using fileScan_fresh Some x by blast
      have "stderr l1 = stderr l @ fileLog Sscanf PD (cooked l) f
                @ [AddingRawRun nm' day' (length (points r)) (pathRel f)]"
        using ne by (simp add: l1_def walkFn_fileLog Some x addRawRun_stderr)
      then show ?thesis using here na Some x by auto
    qed
  next
    case later
    then show ?thesis by auto
  qed
qed

lemma scanLine_Return_skip:
  "scanLine Sscanf PD ck day pr line nm r err = Return e \<Longrightarrow> \<exists>nm'. Skipping pr nm' day \<in> set e"
  by (auto simp: scanLine_def Let_def split: if_splits sum.splits)

lemma scanLines_Return_skip:
  "scanLines Sscanf PD ck day pr ls nm r err = Return e \<Longrightarrow> \<exists>nm'. Skipping pr nm' day \<in> set e"
proof (induction ls arbitrary: nm r err)
  case Nil
  then show ?case by simp
next
  case (Cons line ls)
  show ?case
  proof (cases "scanLine Sscanf PD ck day pr line nm r err")
    case (Next n1 r1 e1)
    then show ?thesis using Cons by simp
  next
    case (Return e1)
    then show ?thesis using Cons.prems scanLine_Return_skip[of Sscanf PD ck day pr line nm r err e1] by simp
  qed
qed

lemma fileLog_skip:
  assumes weak: "\<And>x. ck0 x \<Longrightarrow> ck1 x"
    and added: "fileScan Sscanf PD ck0 f = Some (nm, day, r)"
    and none: "fileScan Sscanf PD ck1 f = None"
  shows "\<exists>nm'. Skipping (pathRel f) nm' day \<in> set (fileLog Sscanf PD ck1 f)"
proof -
  let ?parts = "strings_Split (pathRel f) PathSeparator"
  from fileScan_SomeD[OF added] obtain ls e where
    p: "\<not> length ?parts < 6" "?parts ! 2 = ''write''" and day: "day = ?parts ! 0"
    and ls: "contents f = Lines ls"
    and sc0: "scanLines Sscanf PD ck0 day (pathRel f) ls [] rawWriteRun_zero [] = Next nm r e"
    by blast
  have ne: "points r \<noteq> []" using fileScan_fresh[OF added] by simp
  show ?thesis
  proof (cases "scanLines Sscanf PD ck1 day (pathRel f) ls [] rawWriteRun_zero []")
    case (Next n1 r1 e1)
    then have "scanLines Sscanf PD ck0 day (pathRel f) ls [] rawWriteRun_zero [] = Next n1 r1 e1"
      using scanLines_weaken[of ck0 ck1] weak by blast
    then have "r1 = r" "n1 = nm" using sc0 by simp_all
    then have "fileScan Sscanf PD ck1 f = Some (nm, day, r)"
      using p day ls Next ne by (simp add: fileScan_def Let_def)
    then show ?thesis using none by simp
  next
    case (Return e1)
    then obtain nm' where "Skipping (pathRel f) nm' day \<in> set e1"
      using scanLines_Return_skip by blast
    moreover have "fileLog Sscanf PD ck1 f = e1"
      using p day ls Return by (simp add: fileLog_def Let_def)
    ultimately show ?thesis by blast
  qed
qed

lemma ingest_nothing_log:
  assumes "\<forall>f \<in> set files. fileScan Sscanf PD (cooked l) f = None"
  shows "ingest Sscanf PD files l = l\<lparr>stderr := stderr l @ concat (map (fileLog Sscanf PD (cooked l)) files)\<rparr>"
  using assms
proof (induction files arbitrary: l)
  case Nil
  show ?case by (simp add: ingest_def)
next
  case (Cons f files)
  let ?l1 = "l\<lparr>stderr := stderr l @ fileLog Sscanf PD (cooked l) f\<rparr>"
  have 1: "snd (walkFn Sscanf PD f l) = ?l1" using Cons.prems by (simp add: walkFn_fileLog)
  have "\<forall>f \<in> set files. fileScan Sscanf PD (cooked ?l1) f = None" using Cons.prems by simp
  from Cons.IH[OF this] show ?case by (simp add: ingest_def 1)
qed


section \<open>Merging new and cooked summaries\<close>

subsection \<open>The summaries of the tree\<close>

lemma treeInv_Cons:
  "treeInv ck ((n, w) # ws) \<Longrightarrow>
     treeInv ck ws \<and> n \<notin> fst ` set ws \<and> distinct (map fst (days w))
     \<and> (\<forall>(d, r) \<in> set (days w). date r = d \<and> \<not> ck (n, d) \<and> runOK r)"
  by (auto simp: treeInv_def)

lemma cookWriteSummary_dates:
  assumes "distinct (map fst (days w))" and "\<forall>(d, r) \<in> set (days w). date r = d \<and> runOK r"
  shows "\<exists>ss. cookWriteSummary fos w = Inr ss \<and> map Date ss = sort (map fst (days w))"
proof -
  have ok: "\<forall>(d, r) \<in> set (days w). runOK r" using assms(2) by auto
  obtain ss where ss: "cookWriteSummary fos w = Inr ss"
    "map Date ss = map (\<lambda>d. date (the (map_of (days w) d))) (sort (map fst (days w)))"
    using cookWriteSummary_ok[OF ok] by blast
  have "date (the (map_of (days w) d)) = d" if "d \<in> set (sort (map fst (days w)))" for d
  proof -
    from that obtain r where "(d, r) \<in> set (days w)" by auto
    then show ?thesis using assms by auto
  qed
  then have "map (\<lambda>d. date (the (map_of (days w) d))) (sort (map fst (days w))) = sort (map fst (days w))"
    by (intro map_idI) blast
  then show ?thesis using ss by auto
qed

lemma update_fresh: "k \<notin> fst ` set al \<Longrightarrow> AList.update k v al = al @ [(k, v)]"
  by (induction al) auto

lemma cookAll_value:
  assumes "treeInv ck ws" and "fst ` set ws \<inter> fst ` set acc = {}"
  shows "cookAll fos ws acc = Inr (acc @ map (\<lambda>(n, w). (n, projr (cookWriteSummary fos w))) ws)"
  using assms
proof (induction ws arbitrary: acc)
  case Nil
  then show ?case by simp
next
  case (Cons x ws)
  obtain n w where x: "x = (n, w)" by (cases x)
  note inv = treeInv_Cons[OF Cons.prems(1)[unfolded x]]
  have "\<forall>(d, r) \<in> set (days w). date r = d \<and> runOK r" using inv by auto
  then obtain ss where ss: "cookWriteSummary fos w = Inr ss"
    using cookWriteSummary_dates[of w fos] inv by blast
  have fresh: "n \<notin> fst ` set acc" using Cons.prems(2) by (auto simp: x)
  have "fst ` set ws \<inter> fst ` set (acc @ [(n, ss)]) = {}"
    using Cons.prems(2) inv by (auto simp: x)
  from Cons.IH[OF _ this] inv show ?case
    by (simp add: x ss update_fresh[OF fresh])
qed

subsection \<open>Mixing in the cooked summaries\<close>

lemma mixIn_map_of:
  "map_of (mixIn (k, c) sm) =
     (map_of sm)(k \<mapsto> (case map_of sm k of None \<Rightarrow> c | Some e \<Rightarrow> sort_Slice (e @ c)))"
  by (simp add: mixIn_def update_conv' split: option.splits)

lemma mixIn_distinct: "distinct (map fst sm) \<Longrightarrow> distinct (map fst (mixIn kc sm))"
  by (cases kc) (simp add: mixIn_def distinct_update split: option.splits)

lemma fold_mixIn_distinct: "distinct (map fst sm) \<Longrightarrow> distinct (map fst (fold mixIn cs sm))"
  by (induction cs arbitrary: sm) (simp_all add: mixIn_distinct)

lemma fold_mixIn_map_of:
  assumes "distinct (map fst cs)"
  shows "map_of (fold mixIn cs sm) n =
     (case map_of cs n of
        None \<Rightarrow> map_of sm n
      | Some c \<Rightarrow> Some (case map_of sm n of None \<Rightarrow> c | Some e \<Rightarrow> sort_Slice (e @ c)))"
  using assms
proof (induction cs arbitrary: sm)
  case Nil
  then show ?case by simp
next
  case (Cons x cs)
  obtain k c where x: "x = (k, c)" by (cases x)
  have d: "distinct (map fst cs)" and k: "map_of cs k = None"
    using Cons.prems by (auto simp: x map_of_eq_None_iff)
  show ?case
    using Cons.IH[OF d, of "mixIn (k, c) sm"] k
    by (auto simp: x mixIn_map_of split: option.splits)
qed

lemma set_sort_Slice: "set (sort_Slice xs) = set xs"
  by (simp add: sort_Slice_def)

lemma fold_mixIn_grows:
  "(\<forall>n e. map_of sm n = Some e \<longrightarrow> (\<exists>e'. map_of (fold mixIn cs sm) n = Some e' \<and> set e \<subseteq> set e'))
   \<and> (\<forall>(k, c) \<in> set cs. \<exists>e'. map_of (fold mixIn cs sm) k = Some e' \<and> set c \<subseteq> set e')"
proof (induction cs arbitrary: sm)
  case Nil
  then show ?case by simp
next
  case (Cons x cs)
  obtain k c where x: "x = (k, c)" by (cases x)
  let ?sm = "mixIn (k, c) sm"
  have step: "\<forall>n e. map_of sm n = Some e \<longrightarrow> (\<exists>e'. map_of ?sm n = Some e' \<and> set e \<subseteq> set e')"
    by (auto simp: mixIn_map_of set_sort_Slice)
  have new: "\<exists>e'. map_of ?sm k = Some e' \<and> set c \<subseteq> set e'"
    by (auto simp: mixIn_map_of set_sort_Slice split: option.splits)
  note ih = Cons.IH[of ?sm]
  show ?case
  proof (intro conjI allI impI ballI)
    fix n e assume "map_of sm n = Some e"
    then obtain e1 where "map_of ?sm n = Some e1" "set e \<subseteq> set e1" using step by blast
    then obtain e2 where "map_of (fold mixIn cs ?sm) n = Some e2" "set e1 \<subseteq> set e2" using ih by blast
    then show "\<exists>e'. map_of (fold mixIn (x # cs) sm) n = Some e' \<and> set e \<subseteq> set e'"
      using \<open>set e \<subseteq> set e1\<close> by (auto simp: x)
  next
    fix kc assume kc: "kc \<in> set (x # cs)"
    show "case kc of (k, c) \<Rightarrow> \<exists>e'. map_of (fold mixIn (x # cs) sm) k = Some e' \<and> set c \<subseteq> set e'"
    proof (cases "kc = x")
      case True
      obtain e1 where "map_of ?sm k = Some e1" "set c \<subseteq> set e1" using new by blast
      then obtain e2 where "map_of (fold mixIn cs ?sm) k = Some e2" "set e1 \<subseteq> set e2" using ih by blast
      then show ?thesis using \<open>set c \<subseteq> set e1\<close> True by (auto simp: x)
    next
      case False
      then have "kc \<in> set cs" using kc by simp
      then show ?thesis using ih by (auto simp: x)
    qed
  qed
qed

lemma fold_mixIn_fresh:
  assumes "distinct (map fst cs)" and "fst ` set cs \<inter> fst ` set sm = {}"
  shows "fold mixIn cs sm = sm @ cs"
  using assms
proof (induction cs arbitrary: sm)
  case Nil
  then show ?case by simp
next
  case (Cons x cs)
  obtain k c where x: "x = (k, c)" by (cases x)
  have k: "k \<notin> fst ` set sm" using Cons.prems(2) by (auto simp: x)
  then have "map_of sm k = None" by (simp add: map_of_eq_None_iff)
  then have m: "mixIn (k, c) sm = sm @ [(k, c)]" by (simp add: mixIn_def update_fresh[OF k])
  have "fst ` set cs \<inter> fst ` set (sm @ [(k, c)]) = {}" using Cons.prems by (auto simp: x)
  with Cons.IH[of "sm @ [(k, c)]"] Cons.prems(1) show ?case by (simp add: x m)
qed

subsection \<open>Sorting by date\<close>

lemma distinct_map_insort_key:
  "distinct (map f (insort_key f x xs)) \<longleftrightarrow> f x \<notin> f ` set xs \<and> distinct (map f xs)"
  by (induction xs) (auto simp: set_insort_key)

lemma distinct_map_sort_key: "distinct (map f (sort_key f xs)) \<longleftrightarrow> distinct (map f xs)"
  by (induction xs) (simp_all add: distinct_map_insort_key)

lemma sort_Slice_strict:
  assumes "distinct (map Date e)" and "distinct (map Date c)" and "Date ` set e \<inter> Date ` set c = {}"
  shows "sorted (map Date (sort_Slice (e @ c)))" and "distinct (map Date (sort_Slice (e @ c)))"
  using assms by (auto simp: sort_Slice_def distinct_map_sort_key)


subsection \<open>A run of the program\<close>

lemma writeDays_frame:
  "writeDays fos sd ds fs = (e, fs') \<Longrightarrow>
     summaryFile fs' = summaryFile fs \<and> dataFiles fs' = dataFiles fs \<and> writeErr fs' = writeErr fs"
proof (induction ds arbitrary: fs)
  case Nil
  then show ?case by simp
next
  case (Cons x ds)
  obtain d r where x: "x = (d, r)" by (cases x)
  show ?case
  proof (cases "writeErr fs (filepath_Join sd (writeRun_summaryFilename r))")
    case None
    then show ?thesis using Cons.prems Cons.IH by (auto simp: x outputWriteRunSummary_def)
  next
    case (Some a)
    then show ?thesis using Cons.prems by (auto simp: x outputWriteRunSummary_def)
  qed
qed

lemma writeWorkloadRuns_frame:
  "writeWorkloadRuns fos sd ws fs = (e, fs') \<Longrightarrow>
     summaryFile fs' = summaryFile fs \<and> dataFiles fs' = dataFiles fs \<and> writeErr fs' = writeErr fs"
proof (induction ws arbitrary: fs)
  case Nil
  then show ?case by simp
next
  case (Cons x ws)
  obtain n w where x: "x = (n, w)" by (cases x)
  obtain e1 fs1 where w: "writeDays fos sd (days w) fs = (e1, fs1)" by (cases "writeDays fos sd (days w) fs")
  note f1 = writeDays_frame[OF w]
  show ?case
  proof (cases e1)
    case None
    then show ?thesis using Cons.prems Cons.IH[of fs1] f1 w by (auto simp: x)
  next
    case (Some a)
    then show ?thesis using Cons.prems f1 w by (auto simp: x)
  qed
qed

lemma parseWrite_success:
  assumes "parseWrite fos Sscanf PD dd sd fs = (None, fs1, err)"
  shows "\<exists>l1 S1. loadCooked (newWriteLoader dd sd) fs = (None, l1)
           \<and> mergedSummary fos (ingest Sscanf PD (dataFiles fs) l1) = Inr S1
           \<and> writeErr fs (filepath_Join sd summaryFilename) = None
           \<and> summaryFile fs1 = Inr (JSON S1) \<and> dataFiles fs1 = dataFiles fs \<and> writeErr fs1 = writeErr fs
           \<and> err = stderr (ingest Sscanf PD (dataFiles fs) l1)"
proof -
  let ?l0 = "newWriteLoader dd sd"
  obtain e1 l1 where lc: "loadCooked ?l0 fs = (e1, l1)" by (cases "loadCooked ?l0 fs")
  have e1: "e1 = None" using assms lc by (cases e1) (auto simp: parseWrite_def Let_def)
  define l2 where "l2 = ingest Sscanf PD (dataFiles fs) l1"
  have lr: "loadRaw Sscanf PD l1 fs = (None, l2)" by (simp add: loadRaw_eq l2_def ingest_def)
  have sd1: "summaryDir l1 = sd" using loadCooked_new(2)[of dd sd fs l1] lc e1 by simp
  have sd2: "summaryDir l2 = sd"
  proof -
    have "summaryDir (ingest Sscanf PD files l) = summaryDir l" for files l
    proof (induction files arbitrary: l)
      case Nil
      then show ?case by (simp add: ingest_def)
    next
      case (Cons f files)
      have "summaryDir (snd (walkFn Sscanf PD f l)) = summaryDir l"
        by (auto simp: walkFn_def Let_def addRawRun_def split: fileData.splits scan.splits)
      then show ?case using Cons.IH[of "snd (walkFn Sscanf PD f l)"] by (simp add: ingest_def)
    qed
    then show ?thesis using sd1 by (simp add: l2_def)
  qed
  obtain e3 fs3 where cs: "cookSummary fos l2 fs = (e3, fs3)" by (cases "cookSummary fos l2 fs")
  have e3: "e3 = None" using assms lc e1 lr cs by (cases e3) (auto simp: parseWrite_def Let_def)
  from cs e3 obtain S1 where S1: "mergedSummary fos l2 = Inr S1"
    and we: "writeErr fs (filepath_Join sd summaryFilename) = None"
    and fs3: "fs3 = fs\<lparr>summaryFile := Inr (JSON S1)\<rparr>"
    by (auto simp: cookSummary_def prettyJSON_def Let_def sd2 split: sum.splits option.splits)
  have cw: "cookWriteRunSummaries fos l2 fs3 = (None, fs1)" and err: "err = stderr l2"
    using assms lc e1 lr cs e3 by (auto simp: parseWrite_def Let_def split: prod.splits)
  have "summaryFile fs1 = summaryFile fs3 \<and> dataFiles fs1 = dataFiles fs3 \<and> writeErr fs1 = writeErr fs3"
    using writeWorkloadRuns_frame[of fos "summaryDir l2" "workloads l2" fs3 None fs1] cw
    by (simp add: cookWriteRunSummaries_def)
  then show ?thesis using lc e1 S1 we fs3 err by (auto simp: l2_def)
qed

lemma treeInv_empty: "treeInv ck []"
  by (simp add: treeInv_def)

lemma in_treeKeys:
  assumes "treeInv ck ws" and "(n, w) \<in> set ws" and "(d, r) \<in> set (days w)"
  shows "(n, d) \<in> treeKeys ws"
proof -
  have "map_of ws n = Some w" using assms by (simp add: treeInv_def)
  moreover have "distinct (map fst (days w))" using assms by (auto simp: treeInv_def)
  then have "map_of (days w) d = Some r" using assms(3) by simp
  ultimately show ?thesis by (auto simp: treeKeys_def)
qed

lemma treeKeysD:
  assumes "(n, d) \<in> treeKeys ws"
  shows "\<exists>w r. (n, w) \<in> set ws \<and> (d, r) \<in> set (days w)"
  using assms by (auto simp: treeKeys_def dest!: map_of_SomeD)

text \<open>The summary built from the tree alone.\<close>

lemma newSummary:
  fixes fos :: "int list \<Rightarrow> int list \<Rightarrow> int"
  assumes "treeInv ck ws"
  defines "Snew \<equiv> map (\<lambda>(n, w). (n, projr (cookWriteSummary fos w))) ws"
  shows "cookAll fos ws [] = Inr Snew" and "distinct (map fst Snew)"
    and "\<And>n e. (n, e) \<in> set Snew \<Longrightarrow>
           sorted (map Date e) \<and> distinct (map Date e) \<and> (\<forall>s \<in> set e. (n, Date s) \<in> treeKeys ws \<and> \<not> ck (n, Date s))"
    and "\<And>n d. (n, d) \<in> treeKeys ws \<Longrightarrow> \<exists>e s. (n, e) \<in> set Snew \<and> s \<in> set e \<and> Date s = d"
proof -
  show "cookAll fos ws [] = Inr Snew"
    using cookAll_value[OF assms(1), of "[]" fos] by (simp add: Snew_def)
  have keys: "map fst Snew = map fst ws" by (simp add: Snew_def case_prod_unfold comp_def)
  show "distinct (map fst Snew)" using assms(1) keys by (simp add: treeInv_def)
  have dates: "\<exists>ss. cookWriteSummary fos w = Inr ss \<and> map Date ss = sort (map fst (days w))"
    if "(n, w) \<in> set ws" for n w
  proof -
    have "distinct (map fst (days w))" "\<forall>(d, r) \<in> set (days w). date r = d \<and> runOK r"
      using assms(1) that by (auto simp: treeInv_def)
    then show ?thesis by (rule cookWriteSummary_dates)
  qed
  show "sorted (map Date e) \<and> distinct (map Date e) \<and> (\<forall>s \<in> set e. (n, Date s) \<in> treeKeys ws \<and> \<not> ck (n, Date s))"
    if "(n, e) \<in> set Snew" for n e
  proof -
    from that obtain w where w: "(n, w) \<in> set ws" "e = projr (cookWriteSummary fos w)"
      by (auto simp: Snew_def)
    then have e: "map Date e = sort (map fst (days w))" using dates by fastforce
    have dw: "distinct (map fst (days w))" using assms(1) w by (auto simp: treeInv_def)
    have "(n, Date s) \<in> treeKeys ws \<and> \<not> ck (n, Date s)" if "s \<in> set e" for s
    proof -
      have "Date s \<in> set (map Date e)" using that by simp
      then have "Date s \<in> fst ` set (days w)" unfolding e by simp
      then obtain r where r: "(Date s, r) \<in> set (days w)" by auto
      then show ?thesis using in_treeKeys[OF assms(1) w(1) r] assms(1) w(1) by (auto simp: treeInv_def)
    qed
    then show ?thesis using e dw by simp
  qed
  show "\<exists>e s. (n, e) \<in> set Snew \<and> s \<in> set e \<and> Date s = d" if "(n, d) \<in> treeKeys ws" for n d
  proof -
    from treeKeysD[OF that] obtain w r where w: "(n, w) \<in> set ws" "(d, r) \<in> set (days w)" by blast
    obtain ss where ss: "cookWriteSummary fos w = Inr ss" "map Date ss = sort (map fst (days w))"
      using dates[OF w(1)] by blast
    have "d \<in> set (map Date ss)" unfolding ss(2) using w(2) by force
    then obtain s where "s \<in> set ss" "Date s = d" by auto
    moreover have "(n, ss) \<in> set Snew" using w(1) ss(1) by (force simp: Snew_def)
    ultimately show ?thesis by blast
  qed
qed

lemma writeDays_ok:
  "\<forall>p. writeErr fs p = None \<Longrightarrow> \<exists>fs'. writeDays fos sd ds fs = (None, fs') \<and> (\<forall>p. writeErr fs' p = None)"
proof (induction ds arbitrary: fs)
  case Nil
  then show ?case by simp
next
  case (Cons x ds)
  obtain d r where x: "x = (d, r)" by (cases x)
  let ?fs1 = "fs\<lparr>runFiles := AList.update (filepath_Join sd (writeRun_summaryFilename r))
                 (formatSummaryJSON fos r) (runFiles fs)\<rparr>"
  have "\<forall>p. writeErr ?fs1 p = None" using Cons.prems by simp
  from Cons.IH[OF this] show ?case using Cons.prems by (simp add: x outputWriteRunSummary_def)
qed

lemma writeWorkloadRuns_ok:
  "\<forall>p. writeErr fs p = None \<Longrightarrow>
     \<exists>fs'. writeWorkloadRuns fos sd ws fs = (None, fs') \<and> (\<forall>p. writeErr fs' p = None)"
proof (induction ws arbitrary: fs)
  case Nil
  then show ?case by simp
next
  case (Cons x ws)
  obtain n w where x: "x = (n, w)" by (cases x)
  obtain fs1 where 1: "writeDays fos sd (days w) fs = (None, fs1)" "\<forall>p. writeErr fs1 p = None"
    using writeDays_ok[OF Cons.prems] by blast
  from Cons.IH[OF 1(2)] show ?case by (simp add: x 1(1))
qed

lemma parseWrite_total:
  assumes "summaryFile fs = Inl ErrNotExist \<or> (\<exists>S. summaryFile fs = Inr (JSON S))"
    and "\<forall>p. writeErr fs p = None"
  shows "fst (parseWrite fos Sscanf PD dd sd fs) = None"
proof -
  let ?l0 = "newWriteLoader dd sd"
  obtain l1 where lc: "loadCooked ?l0 fs = (None, l1)"
    using assms(1) by (auto simp: loadCooked_def)
  have "workloads l1 = []" using loadCooked_new(1)[OF lc] .
  then have ok1: "treeOK (workloads l1)" by (simp add: treeOK_def)
  obtain l2 where lr: "loadRaw Sscanf PD l1 fs = (None, l2)" by (simp add: loadRaw_eq)
  have ok2: "treeOK (workloads l2)" using loadRaw_treeOK[OF ok1, of Sscanf PD fs] lr by simp
  obtain S where S: "cookAll fos (workloads l2) [] = Inr S" using cookAll_ok[OF ok2] by blast
  define fs1 where "fs1 = fs\<lparr>summaryFile := Inr (JSON (fold mixIn (cookedSummaries l2) S))\<rparr>"
  have cs: "cookSummary fos l2 fs = (None, fs1)"
    using assms(2) by (simp add: cookSummary_def prettyJSON_def mergedSummary_def S Let_def fs1_def)
  have "\<forall>p. writeErr fs1 p = None" using assms(2) by (simp add: fs1_def)
  then obtain fs2 where "writeWorkloadRuns fos (summaryDir l2) (workloads l2) fs1 = (None, fs2)"
    using writeWorkloadRuns_ok by blast
  then show ?thesis
    by (simp add: parseWrite_def Let_def lc lr cs cookWriteRunSummaries_def)
qed



text \<open>
  C2 (as amended). Suppose \<open>parseWrite\<close> succeeds, and the top-level summary it loaded, if
  there was one, had distinct workload names and every sequence sorted ascending by date
  with at most one entry per date (as every summary this program writes has). Then the
  summary it writes has distinct workload names and every sequence sorted ascending by
  date with at most one entry per date: the days of the new runs are never days of the
  cooked summary, because the files of cooked days are skipped. Nothing is eliminated:
  every entry of the loaded summary is an entry of the written one.
\<close>

theorem C2_merged_summary_sorted:
  assumes run: "parseWrite fos Sscanf PD dd sd fs = (None, fs', err)"
    and cooked: "\<forall>S0. summaryFile fs = Inr (JSON S0) \<longrightarrow>
           distinct (map fst S0) \<and> (\<forall>(n, ss) \<in> set S0. sorted (map Date ss) \<and> distinct (map Date ss))"
  shows "\<exists>S'. summaryFile fs' = Inr (JSON S') \<and> distinct (map fst S')
           \<and> (\<forall>(n, ss) \<in> set S'. sorted (map Date ss) \<and> distinct (map Date ss))
           \<and> (\<forall>S0. summaryFile fs = Inr (JSON S0) \<longrightarrow>
                 (\<forall>(n, c) \<in> set S0. \<exists>ss. (n, ss) \<in> set S' \<and> set c \<subseteq> set ss))"
proof -
  from parseWrite_success[OF run] obtain l1 S1 where
    lc: "loadCooked (newWriteLoader dd sd) fs = (None, l1)" and
    ms: "mergedSummary fos (ingest Sscanf PD (dataFiles fs) l1) = Inr S1" and
    sf: "summaryFile fs' = Inr (JSON S1)"
    by blast
  define l2 where "l2 = ingest Sscanf PD (dataFiles fs) l1"
  define S0 where "S0 = cookedSummaries l1"
  note l1 = loadCooked_new[OF lc]
  have inv1: "treeInv (cooked l1) (workloads l1)" using l1(1) by (simp add: treeInv_empty)
  note ing = ingest_inv[OF inv1, of Sscanf PD "dataFiles fs", folded l2_def]
  have inv2: "treeInv (cooked l1) (workloads l2)" and cs2: "cookedSummaries l2 = S0"
    using ing by (simp_all add: S0_def)
  define Snew where "Snew = map (\<lambda>(n, w). (n, projr (cookWriteSummary fos w))) (workloads l2)"
  note new = newSummary[OF inv2, where fos = fos, folded Snew_def]
  have S1: "S1 = fold mixIn S0 Snew"
    using ms new(1) by (simp add: mergedSummary_def l2_def[symmetric] cs2)
  have S0_file: "S0 = [] \<or> summaryFile fs = Inr (JSON S0)" using l1(5) by (auto simp: S0_def)
  have S0_ok: "distinct (map fst S0)" "\<forall>(n, ss) \<in> set S0. sorted (map Date ss) \<and> distinct (map Date ss)"
    using S0_file cooked by auto
  have dS1: "distinct (map fst S1)" unfolding S1 using new(2) by (rule fold_mixIn_distinct)
  have sorted1: "sorted (map Date ss) \<and> distinct (map Date ss)" if "(n, ss) \<in> set S1" for n ss
  proof -
    have m: "map_of S1 n = Some ss" using that dS1 by simp
    show ?thesis
    proof (cases "map_of S0 n")
      case None
      then have "map_of Snew n = Some ss" using m fold_mixIn_map_of[OF S0_ok(1), of Snew n] by (simp add: S1)
      then have "(n, ss) \<in> set Snew" by (rule map_of_SomeD)
      then show ?thesis using new(3) by blast
    next
      case (Some c)
      then have c: "(n, c) \<in> set S0" by (rule map_of_SomeD)
      then have c_ok: "sorted (map Date c)" "distinct (map Date c)" using S0_ok(2) by auto
      show ?thesis
      proof (cases "map_of Snew n")
        case None
        then have "ss = c" using m Some fold_mixIn_map_of[OF S0_ok(1), of Snew n] by (simp add: S1)
        then show ?thesis using c_ok by simp
      next
        case (Some e)
        then have ss: "ss = sort_Slice (e @ c)"
          using m \<open>map_of S0 n = Some c\<close> fold_mixIn_map_of[OF S0_ok(1), of Snew n] by (simp add: S1)
        have e: "(n, e) \<in> set Snew" using Some by (rule map_of_SomeD)
        have "Date ` set e \<inter> Date ` set c = {}"
        proof (rule ccontr)
          assume "Date ` set e \<inter> Date ` set c \<noteq> {}"
          then obtain s t where st: "s \<in> set e" "t \<in> set c" "Date s = Date t" by auto
          have "\<not> cooked l1 (n, Date s)" using new(3)[OF e] st(1) by blast
          moreover have "(n, Date t) \<in> cookedKeys S0" using c st(2) by (auto simp: cookedKeys_def)
          ultimately show False using l1(4) st(3) by (simp add: S0_def)
        qed
        then show ?thesis unfolding ss using sort_Slice_strict[of e c] new(3)[OF e] c_ok by blast
      qed
    qed
  qed
  have kept: "\<exists>ss. (n, ss) \<in> set S1 \<and> set c \<subseteq> set ss" if "(n, c) \<in> set S0" for n c
  proof -
    have A: "\<forall>(k, c) \<in> set S0. \<exists>e'. map_of (fold mixIn S0 Snew) k = Some e' \<and> set c \<subseteq> set e'"
      using fold_mixIn_grows[of Snew S0] by (rule conjunct2)
    from bspec[OF A that] obtain e' where e': "map_of S1 n = Some e'" "set c \<subseteq> set e'"
      unfolding S1 by auto
    have "(n, e') \<in> set S1" using e'(1) by (rule map_of_SomeD)
    then show ?thesis using e'(2) by blast
  qed
  have same: "S = S0" if "summaryFile fs = Inr (JSON S)" for S
    using S0_file l1(5) that by (auto simp: S0_def)
  show ?thesis
  proof (intro exI[of _ S1] conjI)
    show "summaryFile fs' = Inr (JSON S1)" by (rule sf)
    show "distinct (map fst S1)" by (rule dS1)
    show "\<forall>(n, ss) \<in> set S1. sorted (map Date ss) \<and> distinct (map Date ss)"
      using sorted1 by auto
    show "\<forall>S0. summaryFile fs = Inr (JSON S0) \<longrightarrow>
                 (\<forall>(n, c) \<in> set S0. \<exists>ss. (n, ss) \<in> set S1 \<and> set c \<subseteq> set ss)"
    proof (intro allI impI)
      fix S assume "summaryFile fs = Inr (JSON S)"
      then have "S = S0" by (rule same)
      then show "\<forall>(n, c) \<in> set S. \<exists>ss. (n, ss) \<in> set S1 \<and> set c \<subseteq> set ss"
        using kept by auto
    qed
  qed
qed

text \<open>
  The specification's example: a cooked summary of 2023-01-01 and 2023-01-03 and new data
  of 2023-01-02 give the sequence 2023-01-01, 2023-01-02, 2023-01-03.
\<close>

theorem C2_merged_summary_sorted_witness:
  "fst (parseWrite findOptimalSplit example_Sscanf example_ParseDuration ''data'' ''write-throughput''
          example_fs_cooked) = None
   \<and> (\<exists>S'. summaryFile (fst (snd (parseWrite findOptimalSplit example_Sscanf example_ParseDuration
               ''data'' ''write-throughput'' example_fs_cooked))) = Inr (JSON S')
          \<and> map (\<lambda>(n, ss). (n, map Date ss)) S'
              = [(''values=1024'', [''20230101'', ''20230102'', ''20230103''])]
          \<and> distinct (map fst S'))"
proof -
  define res where "res = parseWrite findOptimalSplit example_Sscanf example_ParseDuration
     ''data'' ''write-throughput'' example_fs_cooked"
  have e: "fst res = None" unfolding res_def
    by (rule parseWrite_total) (simp_all add: example_fs_cooked_def example_fs_def)
  have run: "parseWrite findOptimalSplit example_Sscanf example_ParseDuration
     ''data'' ''write-throughput'' example_fs_cooked = (None, fst (snd res), snd (snd res))"
    using e by (simp add: res_def prod_eq_iff)
  from parseWrite_success[OF run] obtain l1 S1 where
    lc: "loadCooked (newWriteLoader ''data'' ''write-throughput'') example_fs_cooked = (None, l1)" and
    ms: "mergedSummary findOptimalSplit
           (ingest example_Sscanf example_ParseDuration (dataFiles example_fs_cooked) l1) = Inr S1" and
    sf: "summaryFile (fst (snd res)) = Inr (JSON S1)"
    by blast
  have "(case loadCooked (newWriteLoader ''data'' ''write-throughput'') example_fs_cooked of
     (e, l1) \<Rightarrow> map (\<lambda>(n, ss). (n, map Date ss))
        (projr (mergedSummary findOptimalSplit
           (ingest example_Sscanf example_ParseDuration (dataFiles example_fs_cooked) l1))))
   = [(''values=1024'', [''20230101'', ''20230102'', ''20230103''])]"
    by code_simp
  then have dates: "map (\<lambda>(n, ss). (n, map Date ss)) S1
      = [(''values=1024'', [''20230101'', ''20230102'', ''20230103''])]"
    by (simp add: lc ms)
  have hyp: "\<forall>S0. summaryFile example_fs_cooked = Inr (JSON S0) \<longrightarrow>
           distinct (map fst S0) \<and> (\<forall>(n, ss) \<in> set S0. sorted (map Date ss) \<and> distinct (map Date ss))"
    by (simp add: example_fs_cooked_def example_cooked_def)
  from C2_merged_summary_sorted [OF run hyp] obtain S' where
    S': "summaryFile (fst (snd res)) = Inr (JSON S')" "distinct (map fst S')"
    by blast
  then have "S' = S1" using sf by simp
  then have "\<exists>S'. summaryFile (fst (snd res)) = Inr (JSON S')
          \<and> map (\<lambda>(n, ss). (n, map Date ss)) S'
              = [(''values=1024'', [''20230101'', ''20230102'', ''20230103''])]
          \<and> distinct (map fst S')"
    using S' dates by (intro exI[of _ S']) simp
  then show ?thesis using e unfolding res_def by (rule conjI[rotated])
qed

text \<open>
  As the claim is worded, duplicates are eliminated and every written sequence is sorted
  with one entry per date. In a loader where 2023-01-02 is both a new day and a cooked
  day of \<open>values=1024\<close>, the merged sequence has two entries of that date. And a summary
  file whose sequence is 2023-01-03, 2023-01-01, 2023-01-01 is written back as it is when
  there is no new data: neither sorted nor free of repeated dates.
\<close>

theorem C2_duplicates_kept_counterexample:
  "map Date (snd (hd (projr (mergedSummary findOptimalSplit example_loader_dup)))) = [''20230102'', ''20230102'']
   \<and> parseWrite findOptimalSplit example_Sscanf example_ParseDuration ''data'' ''write-throughput''
        example_fs_unsorted = (None, example_fs_unsorted, [])
   \<and> summaryFile example_fs_unsorted
        = Inr (JSON [(''values=1024'',
               [example_cooked ''20230103'', example_cooked ''20230101'', example_cooked ''20230101''])])
   \<and> map Date [example_cooked ''20230103'', example_cooked ''20230101'', example_cooked ''20230101'']
        = [''20230103'', ''20230101'', ''20230101'']
   \<and> \<not> sorted [''20230103'', ''20230101'', ''20230101'']
   \<and> \<not> distinct [''20230103'', ''20230101'', ''20230101'']"
proof -
  have 1: "map Date (snd (hd (projr (mergedSummary findOptimalSplit example_loader_dup)))) = [''20230102'', ''20230102'']"
    by code_simp
  have 2: "parseWrite findOptimalSplit example_Sscanf example_ParseDuration ''data'' ''write-throughput''
        example_fs_unsorted = (None, example_fs_unsorted, [])"
    by (simp add: parseWrite_def example_fs_unsorted_def loadCooked_def newWriteLoader_def markCooked_def
        loadRaw_def cookSummary_def prettyJSON_def mergedSummary_def mixIn_def cookWriteRunSummaries_def
        Let_def)
  have 3: "\<not> sorted [''20230103'', ''20230101'', ''20230101'']" by simp
  show ?thesis using 1 2 3 by (simp add: example_fs_unsorted_def example_cooked_def)
qed



section \<open>Running the program again\<close>

text \<open>
  C3. If \<open>parseWrite\<close> succeeds and leaves the file system \<open>fs1\<close>, then running it again
  over \<open>fs1\<close> (the same data, the summary of the first run in place) succeeds and leaves
  exactly \<open>fs1\<close>: the top-level summary is written back as it was loaded, every workload
  passing through, and no per-run file is written, because no raw run is added: every
  file that would add one names a workload and day of the loaded summary and is skipped.
  Every file from which the first run added a raw run is reported as skipped, for its
  day, by the second. (A file written by the program is represented by the map it
  encodes.)
\<close>

theorem C3_second_run_identical:
  assumes run1: "parseWrite fos Sscanf PD dd sd fs = (None, fs1, err1)"
  shows "\<exists>err2. parseWrite fos Sscanf PD dd sd fs1 = (None, fs1, err2)
           \<and> (\<forall>nm day k p. AddingRawRun nm day k p \<notin> set err2)
           \<and> (\<forall>nm day k p. AddingRawRun nm day k p \<in> set err1 \<longrightarrow>
                 (\<exists>nm'. Skipping p nm' day \<in> set err2))"
proof -
  let ?l0 = "newWriteLoader dd sd"
  let ?files = "dataFiles fs"
  from parseWrite_success[OF run1] obtain l1 S1 where
    lc: "loadCooked ?l0 fs = (None, l1)" and
    ms: "mergedSummary fos (ingest Sscanf PD ?files l1) = Inr S1" and
    we: "writeErr fs (filepath_Join sd summaryFilename) = None" and
    sf: "summaryFile fs1 = Inr (JSON S1)" and df: "dataFiles fs1 = ?files" and wf: "writeErr fs1 = writeErr fs" and
    err1: "err1 = stderr (ingest Sscanf PD ?files l1)"
    by blast
  define l2 where "l2 = ingest Sscanf PD ?files l1"
  define S0 where "S0 = cookedSummaries l1"
  note l1 = loadCooked_new[OF lc]
  have inv1: "treeInv (cooked l1) (workloads l1)" using l1(1) by (simp add: treeInv_empty)
  note ing = ingest_inv[OF inv1, of Sscanf PD ?files, folded l2_def]
  have inv2: "treeInv (cooked l1) (workloads l2)" and cs2: "cookedSummaries l2 = S0"
    using ing by (simp_all add: S0_def)
  define Snew where "Snew = map (\<lambda>(n, w). (n, projr (cookWriteSummary fos w))) (workloads l2)"
  note new = newSummary[OF inv2, where fos = fos, folded Snew_def]
  have S1: "S1 = fold mixIn S0 Snew"
    using ms new(1) by (simp add: mergedSummary_def l2_def[symmetric] cs2)
  have dS1: "distinct (map fst S1)" unfolding S1 using new(2) by (rule fold_mixIn_distinct)
  note grows = fold_mixIn_grows[of Snew S0, folded S1]
  have old_kept: "x \<in> cookedKeys S1" if "cooked l1 x" for x
  proof -
    from that l1(4) have "x \<in> cookedKeys S0" by (simp add: S0_def)
    then obtain n c s where x: "x = (n, Date s)" "(n, c) \<in> set S0" "s \<in> set c"
      by (auto simp: cookedKeys_def)
    from bspec[OF conjunct2[OF grows] x(2)] obtain e' where e': "map_of S1 n = Some e'" "set c \<subseteq> set e'"
      by auto
    have "(n, e') \<in> set S1" using e'(1) by (rule map_of_SomeD)
    then show ?thesis using x e'(2) by (auto simp: cookedKeys_def)
  qed
  have new_kept: "x \<in> cookedKeys S1" if "x \<in> treeKeys (workloads l2)" for x
  proof -
    obtain n d where x: "x = (n, d)" by (cases x)
    from new(4)[of n d] that x obtain e s where es: "(n, e) \<in> set Snew" "s \<in> set e" "Date s = d" by blast
    have "map_of Snew n = Some e" using es(1) new(2) by simp
    with conjunct1[OF grows] obtain e' where e': "map_of S1 n = Some e'" "set e \<subseteq> set e'" by blast
    have "(n, e') \<in> set S1" using e'(1) by (rule map_of_SomeD)
    then show ?thesis using x es e'(2) by (auto simp: cookedKeys_def)
  qed
  \<comment> \<open>the second run\<close>
  obtain l1' where lc': "loadCooked ?l0 fs1 = (None, l1')" using loadCooked_JSON[OF sf] by blast
  note l1' = loadCooked_new[OF lc']
  have csum': "cookedSummaries l1' = S1" using l1'(5) sf by auto
  have ck1: "cooked l1' x \<longleftrightarrow> x \<in> cookedKeys S1" for x
    using spec[OF l1'(4), of x] csum' by simp
  have none: "\<forall>f \<in> set ?files. fileScan Sscanf PD (cooked l1') f = None"
  proof (intro ballI, rule ccontr)
    fix f assume f: "f \<in> set ?files" and "fileScan Sscanf PD (cooked l1') f \<noteq> None"
    then obtain nm day r where k: "fileScan Sscanf PD (cooked l1') f = Some (nm, day, r)" by auto
    have "fileScan Sscanf PD (cooked l1) f = Some (nm, day, r)"
      using fileScan_weaken[of "cooked l1" "cooked l1'" Sscanf PD f "(nm, day, r)"] old_kept ck1 k by blast
    then have "(nm, day) \<in> treeKeys (workloads l2)" using ing f by blast
    then have "cooked l1' (nm, day)" using new_kept ck1 by blast
    then show False using fileScan_fresh[OF k] by simp
  qed
  define e where "e = concat (map (fileLog Sscanf PD (cooked l1')) ?files)"
  have l2': "ingest Sscanf PD ?files l1' = l1'\<lparr>stderr := stderr l1' @ e\<rparr>"
    unfolding e_def using none by (rule ingest_nothing_log)
  have e: "\<forall>d \<in> set e. \<not> isAdding d"
    using fileLog_noAdding[of Sscanf PD "cooked l1'"] by (auto simp: e_def)
  have skipped: "\<exists>nm'. Skipping p nm' day \<in> set e" if "AddingRawRun nm day k p \<in> set err1" for nm day k p
  proof -
    from ingest_added[OF that[unfolded err1]] l1(3) obtain f r where
      f: "f \<in> set ?files" "pathRel f = p" "fileScan Sscanf PD (cooked l1) f = Some (nm, day, r)"
      by auto
    have "\<exists>nm'. Skipping (pathRel f) nm' day \<in> set (fileLog Sscanf PD (cooked l1') f)"
    proof (rule fileLog_skip[OF _ f(3)])
      show "cooked l1' x" if "cooked l1 x" for x using that old_kept ck1 by blast
      show "fileScan Sscanf PD (cooked l1') f = None" using none f(1) by blast
    qed
    then show ?thesis using f(1,2) by (auto simp: e_def)
  qed
  define l2' where "l2' = l1'\<lparr>stderr := stderr l1' @ e\<rparr>"
  have lr': "loadRaw Sscanf PD l1' fs1 = (None, l2')"
    by (simp add: loadRaw_eq df l2'[unfolded ingest_def] l2'_def)
  have ms': "mergedSummary fos l2' = Inr S1"
    using fold_mixIn_fresh[OF dS1, of "[]"] by (simp add: mergedSummary_def l2'_def l1'(1) csum')
  have "fs1\<lparr>summaryFile := Inr (JSON S1)\<rparr> = fs1"
    using sf by (metis fileSystem.surjective fileSystem.update_convs(1))
  have cs': "cookSummary fos l2' fs1 = (None, fs1)"
  proof -
    have "summaryDir l2' = sd" by (simp add: l2'_def l1'(2))
    then show ?thesis
      using we wf \<open>fs1\<lparr>summaryFile := Inr (JSON S1)\<rparr> = fs1\<close>
      by (simp add: cookSummary_def prettyJSON_def ms' Let_def)
  qed
  have cw': "cookWriteRunSummaries fos l2' fs1 = (None, fs1)"
    by (simp add: cookWriteRunSummaries_def l2'_def l1'(1))
  have "parseWrite fos Sscanf PD dd sd fs1 = (None, fs1, e)"
    by (simp add: parseWrite_def Let_def lc' lr' cs' cw') (simp add: l2'_def l1'(3))
  moreover have "\<forall>nm day k p. AddingRawRun nm day k p \<notin> set e"
    using e by (auto simp: isAdding_def)
  ultimately show ?thesis using skipped by blast
qed

text \<open>The example directory: the first run succeeds, and so does the second, changing nothing.\<close>

theorem C3_second_run_identical_witness:
  "fst (parseWrite findOptimalSplit example_Sscanf example_ParseDuration ''data'' ''write-throughput''
          example_fs) = None
   \<and> (\<exists>err2. parseWrite findOptimalSplit example_Sscanf example_ParseDuration ''data'' ''write-throughput''
          (fst (snd (parseWrite findOptimalSplit example_Sscanf example_ParseDuration ''data''
             ''write-throughput'' example_fs)))
        = (None, fst (snd (parseWrite findOptimalSplit example_Sscanf example_ParseDuration ''data''
             ''write-throughput'' example_fs)), err2))"
proof -
  define res where "res = parseWrite findOptimalSplit example_Sscanf example_ParseDuration
     ''data'' ''write-throughput'' example_fs"
  have e: "fst res = None" unfolding res_def
    by (rule parseWrite_total) (simp_all add: example_fs_def)
  have run: "parseWrite findOptimalSplit example_Sscanf example_ParseDuration
     ''data'' ''write-throughput'' example_fs = (None, fst (snd res), snd (snd res))"
    using e by (simp add: res_def prod_eq_iff)
  from C3_second_run_identical [OF run] obtain err2 where
    "parseWrite findOptimalSplit example_Sscanf example_ParseDuration ''data'' ''write-throughput''
       (fst (snd res)) = (None, fst (snd res), err2)"
    by blast
  then show ?thesis using e unfolding res_def by blast
qed

end
